theory Spec2Isabelle
  imports Main "HOL-Library.Word" "HOL-Library.AList"
begin

unbundle bit_operations_syntax

section \<open>Strings\<close>

text \<open>
  Go strings are byte strings; they are modelled as \<^typ>\<open>string\<close>.  Package
  \<^verbatim>\<open>strings\<close> handles text that is all ASCII by itself: on such text
  \<^verbatim>\<open>ToLower\<close> maps \<^verbatim>\<open>A\<close>..\<^verbatim>\<open>Z\<close> to \<^verbatim>\<open>a\<close>..\<^verbatim>\<open>z\<close> and
  \<^verbatim>\<open>TrimSpace\<close> removes tab, line feed, vertical tab, form feed, carriage return and
  space from both ends.  On text with a byte above 127 both functions decode UTF-8 and
  consult the Unicode tables, which are not in the repository: what they return on such
  text is a parameter of the model (the fields \<open>ToLowerUnicode\<close> and \<open>TrimSpaceUnicode\<close>
  of the environment, below).  \<^verbatim>\<open>TrimSuffix\<close> compares bytes.
\<close>

definition isASCII :: "string \<Rightarrow> bool" where
  "isASCII s = (\<forall>c \<in> set s. (of_char c :: nat) < 128)"

definition isUpper :: "char \<Rightarrow> bool" where
  "isUpper c = (65 \<le> (of_char c :: nat) \<and> (of_char c :: nat) \<le> 90)"

definition toLowerChar :: "char \<Rightarrow> char" where
  "toLowerChar c = (if isUpper c then char_of ((of_char c :: nat) + 32) else c)"

definition isSpace :: "char \<Rightarrow> bool" where
  "isSpace c = ((of_char c :: nat) \<in> {9, 10, 11, 12, 13, 32})"

definition TrimSuffix :: "string \<Rightarrow> string \<Rightarrow> string" where
  "TrimSuffix s suf =
     (if length suf \<le> length s \<and> drop (length s - length suf) s = suf
      then take (length s - length suf) s else s)"

text \<open>Decimal rendering, as \<^verbatim>\<open>fmt.Sprintf("%d", n)\<close> prints it.\<close>

fun showNat :: "nat \<Rightarrow> string" where
  "showNat n =
     (if n < 10 then [char_of (48 + n)]
      else showNat (n div 10) @ [char_of (48 + n mod 10)])"

declare showNat.simps [simp del]

definition showInt :: "int \<Rightarrow> string" where
  "showInt i = (if i < 0 then CHR ''-'' # showNat (nat (- i)) else showNat (nat i))"

section \<open>DNS messages\<close>

text \<open>
  The message type of the wire codec (\<^verbatim>\<open>dns.Msg\<close>): the header bits, the response code
  and the four sections.  A resource record carries its header and its data; the type
  assertion \<^verbatim>\<open>rr.(*dns.SOA)\<close> of the source is a case distinction on the data.
\<close>

record Question =
  Name :: string
  Qtype :: "16 word"
  Qclass :: "16 word"

datatype RData =
    AData "32 word"
  | SOAData string string "32 word" "32 word" "32 word" "32 word" "32 word"
  | OtherData "8 word list"

record RR =
  Hdr_Name :: string
  Rrtype :: "16 word"
  Class :: "16 word"
  Ttl :: "32 word"
  Rdata :: RData

record Msg =
  Id :: "16 word"
  Response :: bool
  Opcode :: int
  Authoritative :: bool
  Truncated :: bool
  RecursionDesired :: bool
  RecursionAvailable :: bool
  Zero :: bool
  AuthenticatedData :: bool
  CheckingDisabled :: bool
  Rcode :: int
  Question :: "Question list"
  Answer :: "RR list"
  Ns :: "RR list"
  Extra :: "RR list"

definition RcodeSuccess :: int where "RcodeSuccess = 0"
definition RcodeServerFailure :: int where "RcodeServerFailure = 2"
definition RcodeNameError :: int where "RcodeNameError = 3"
definition RcodeNotImplemented :: int where "RcodeNotImplemented = 4"
definition RcodeRefused :: int where "RcodeRefused = 5"
definition OpcodeQuery :: int where "OpcodeQuery = 0"

text \<open>\<^verbatim>\<open>new(dns.Msg)\<close>: every field has its zero value.\<close>

definition newMsg :: Msg where
  "newMsg = \<lparr>Id = 0, Response = False, Opcode = 0, Authoritative = False, Truncated = False,
     RecursionDesired = False, RecursionAvailable = False, Zero = False,
     AuthenticatedData = False, CheckingDisabled = False, Rcode = 0,
     Question = [], Answer = [], Ns = [], Extra = []\<rparr>"

text \<open>
  \<^verbatim>\<open>SetReply\<close> and \<^verbatim>\<open>SetRcode\<close> of the codec library: the reply takes the request's
  identifier and opcode, the RD and CD bits of a standard query, and the first question.
\<close>

definition SetReply :: "Msg \<Rightarrow> Msg \<Rightarrow> Msg" where
  "SetReply m request =
     (let m1 = m\<lparr>Id := Id request, Response := True, Opcode := Opcode request\<rparr>;
          m2 = (if Opcode m1 = OpcodeQuery
                then m1\<lparr>RecursionDesired := RecursionDesired request,
                        CheckingDisabled := CheckingDisabled request\<rparr>
                else m1);
          m3 = m2\<lparr>Rcode := RcodeSuccess\<rparr>
      in case Question request of [] \<Rightarrow> m3 | q # _ \<Rightarrow> m3\<lparr>Question := [q]\<rparr>)"

definition SetRcode :: "Msg \<Rightarrow> Msg \<Rightarrow> int \<Rightarrow> Msg" where
  "SetRcode m request rcode = (SetReply m request)\<lparr>Rcode := rcode\<rparr>"

section \<open>Configuration, policy entries and the server state\<close>

text \<open>
  A client address (\<^verbatim>\<open>net.IP\<close>) is kept in canonical form: an IPv4 address, also when
  written as an IPv4-mapped IPv6 address, or a proper IPv6 address; a nil address is
  \<open>None\<close>.  A subnet (\<^verbatim>\<open>net.IPNet\<close>) is a network address with a prefix length.
\<close>

datatype netIP = IPv4 "32 word" | IPv6 "128 word"

record IPNet =
  NetAddr :: netIP
  Ones :: nat

definition Equal :: "netIP \<Rightarrow> netIP \<Rightarrow> bool" where
  "Equal ip x = (ip = x)"

definition Contains :: "IPNet \<Rightarrow> netIP \<Rightarrow> bool" where
  "Contains n ip =
     (case (NetAddr n, ip) of
        (IPv4 a, IPv4 b) \<Rightarrow> drop_bit (32 - Ones n) a = drop_bit (32 - Ones n) b
      | (IPv6 a, IPv6 b) \<Rightarrow> drop_bit (128 - Ones n) a = drop_bit (128 - Ones n) b
      | _ \<Rightarrow> False)"

record Config =
  CacheTTL :: int
  NegativeCacheTTL :: int
  MaxCacheSize :: int

record NameserverConfig =
  Address :: string
  Protocol :: string
  Port :: int

record OverwriteEntry =
  IP :: string
  OverwriteSubnets :: "IPNet list"
  OverwriteIPs :: "netIP list"

record BlockEntry =
  Subnets :: "IPNet list"
  IPs :: "netIP list"

text \<open>Instants are nanoseconds on the integer line; a \<^verbatim>\<open>time.Duration\<close> is 64 bits wide.\<close>

type_synonym time = int

record CacheEntry =
  Message :: Msg
  ExpiresAt :: time

text \<open>The settings of a \<^verbatim>\<open>dns.Client\<close> that the forwarder chooses; the timeout is in seconds.\<close>

record Client =
  Net :: string
  Timeout :: nat
  ServerName :: string

text \<open>
  What the program does to the outside world is recorded in the state: \<open>netlog\<close> lists the
  upstream exchanges, \<open>out\<close> the messages written to response writers and waiter channels,
  \<open>clockReads\<close> counts the calls of \<^verbatim>\<open>time.Now\<close>, and \<open>nextChan\<close> numbers the channels
  made so far.  What the outside world answers is given by an environment: the reply to the
  \<open>n\<close>-th exchange, the instant of the \<open>n\<close>-th clock reading, the parsers of the codec
  and network libraries, and what \<^verbatim>\<open>strings.ToLower\<close> and \<^verbatim>\<open>strings.TrimSpace\<close>
  return on text that is not ASCII.
\<close>

datatype NetCall = Exchange Client Msg string | DoHExchange string Msg

datatype Exch = ExchErr | ExchOk "Msg option"

datatype Event = WriteMsg Msg | ChanSend nat Msg | ChanClose nat | AwaitChan nat

datatype error = IndexOutOfRange

record Env =
  exchange :: "nat \<Rightarrow> NetCall \<Rightarrow> Exch"
  clock :: "nat \<Rightarrow> time"
  NewRR :: "string \<Rightarrow> RR option"
  ParseIP :: "string \<Rightarrow> netIP option"
  ParseCIDR :: "string \<Rightarrow> IPNet option"
  ToLowerUnicode :: "string \<Rightarrow> string"
  TrimSpaceUnicode :: "string \<Rightarrow> string"

subsection \<open>The domain normalizer\<close>

text \<open>
  \<^verbatim>\<open>strings.ToLower\<close> and \<^verbatim>\<open>strings.TrimSpace\<close>: the result is computed for ASCII
  text and is the one the environment gives for any other text.
\<close>

definition ToLower :: "Env \<Rightarrow> string \<Rightarrow> string" where
  "ToLower env s = (if isASCII s then map toLowerChar s else ToLowerUnicode env s)"

definition TrimSpace :: "Env \<Rightarrow> string \<Rightarrow> string" where
  "TrimSpace env s =
     (if isASCII s then rev (dropWhile isSpace (rev (dropWhile isSpace s)))
      else TrimSpaceUnicode env s)"

text \<open>Lines 57 to 60 of \<^verbatim>\<open>normalizeDomain\<close>: the value computed on a miss of the interning map.\<close>

definition normalized :: "Env \<Rightarrow> string \<Rightarrow> string" where
  "normalized env domain = TrimSuffix (TrimSpace env (ToLower env domain)) ''.''"

text \<open>
  \<^verbatim>\<open>domainCache\<close> is a package-level \<^verbatim>\<open>sync.Map\<close>; \<^verbatim>\<open>normalizeDomain\<close> reads it
  first and, on a miss, stores the result under the input and, when the two differ, also under
  the result itself.  The function therefore takes the map and returns it updated.
\<close>

type_synonym domainCache = "string \<rightharpoonup> string"

definition normalizeDomain :: "Env \<Rightarrow> domainCache \<Rightarrow> string \<Rightarrow> string \<times> domainCache" where
  "normalizeDomain env dc domain =
     (case dc domain of
        Some cached \<Rightarrow> (cached, dc)
      | None \<Rightarrow>
          (let n = normalized env domain
           in (n, if length n < 256
                  then (if n \<noteq> domain then (dc(domain \<mapsto> n))(n \<mapsto> n) else dc(domain \<mapsto> n))
                  else dc)))"

text \<open>
  The interning map lives as long as the process.  \<open>domainCacheAfter env xs\<close> is the map of
  a process that has called \<^verbatim>\<open>normalizeDomain\<close> on the inputs \<open>xs\<close>, in this order, since
  it started; \<open>normalizeTwice env dc x\<close> is
  \<^verbatim>\<open>normalizeDomain(normalizeDomain(x))\<close> as the program evaluates it: the outer call
  finds the map as the inner call has left it.
\<close>

definition domainCacheAfter :: "Env \<Rightarrow> string list \<Rightarrow> domainCache" where
  "domainCacheAfter env xs = foldl (\<lambda>dc x. snd (normalizeDomain env dc x)) Map.empty xs"

definition normalizeTwice :: "Env \<Rightarrow> domainCache \<Rightarrow> string \<Rightarrow> string" where
  "normalizeTwice env dc x =
     (let (n, dc1) = normalizeDomain env dc x in fst (normalizeDomain env dc1 n))"

text \<open>
  What is said of a normalized name.  Upper case and white space are those of ASCII, which
  is all there is in ASCII text.
\<close>

definition isLowercase :: "string \<Rightarrow> bool" where
  "isLowercase s = (\<forall>c \<in> set s. \<not> isUpper c)"

definition noLeadingSpace :: "string \<Rightarrow> bool" where
  "noLeadingSpace s = (case s of [] \<Rightarrow> True | c # _ \<Rightarrow> \<not> isSpace c)"

definition noTrailingSpace :: "string \<Rightarrow> bool" where
  "noTrailingSpace s = (s = [] \<or> \<not> isSpace (last s))"

definition noTrailingDot :: "string \<Rightarrow> bool" where
  "noTrailingDot s = (s = [] \<or> last s \<noteq> CHR ''.'')"

text \<open>
  \<open>wellEnded t\<close>: the text \<open>t\<close> does not end in two dots, nor in white space followed by a
  dot.  The three predicates on interning maps are the invariants of the proofs: every
  stored value is stored under itself and is shorter than 256 bytes; every stored value is
  lowercase without leading white space; every binding agrees with the transformation.
\<close>

definition wellEnded :: "string \<Rightarrow> bool" where
  "wellEnded t =
     (case rev t of
        c1 # c2 # _ \<Rightarrow> \<not> (c1 = CHR ''.'' \<and> (c2 = CHR ''.'' \<or> isSpace c2))
      | _ \<Rightarrow> True)"

definition dcClosed :: "domainCache \<Rightarrow> bool" where
  "dcClosed dc = (\<forall>k v. dc k = Some v \<longrightarrow> dc v = Some v \<and> length v < 256)"

definition dcPlain :: "domainCache \<Rightarrow> bool" where
  "dcPlain dc = (\<forall>k v. dc k = Some v \<longrightarrow> isLowercase v \<and> noLeadingSpace v)"

definition dcConsistent :: "Env \<Rightarrow> domainCache \<Rightarrow> bool" where
  "dcConsistent env dc = (\<forall>k v. dc k = Some v \<longrightarrow> v = normalized env k)"

subsection \<open>The server state\<close>

record DNSServer =
  config :: Config
  blocked :: "string \<rightharpoonup> BlockEntry"
  overwrites :: "string \<rightharpoonup> OverwriteEntry"
  nameservers :: "NameserverConfig list"
  cache :: "(string \<times> CacheEntry) list"
  maxCacheSize :: int
  pendingRequests :: "string \<rightharpoonup> nat list"
  client :: Client
  nameserverIdx :: "64 word"
  domainCache :: domainCache
  netlog :: "NetCall list"
  out :: "Event list"
  clockReads :: nat
  nextChan :: nat

definition normalizeDomainS :: "Env \<Rightarrow> DNSServer \<Rightarrow> string \<Rightarrow> string \<times> DNSServer" where
  "normalizeDomainS env s domain =
     (let (n, dc) = normalizeDomain env (domainCache s) domain in (n, s\<lparr>domainCache := dc\<rparr>))"

definition timeNow :: "Env \<Rightarrow> DNSServer \<Rightarrow> time \<times> DNSServer" where
  "timeNow env s = (clock env (clockReads s), s\<lparr>clockReads := Suc (clockReads s)\<rparr>)"

definition WriteMsgTo :: "DNSServer \<Rightarrow> Msg \<Rightarrow> DNSServer" where
  "WriteMsgTo s m = s\<lparr>out := out s @ [WriteMsg m]\<rparr>"


section \<open>The response cache (cache.go)\<close>

text \<open>
  The cache is a Go map from keys to entries.  It is an association list with distinct keys
  here: \<^verbatim>\<open>len(s.cache)\<close> is its length, and the order of the list stands for the order in
  which one \<^verbatim>\<open>range\<close> loop visits the map, which Go leaves unspecified.
\<close>

definition getCacheKey :: "Env \<Rightarrow> DNSServer \<Rightarrow> Msg \<Rightarrow> string \<times> DNSServer" where
  "getCacheKey env s r =
     (case Question r of
        [] \<Rightarrow> ([], s)
      | q # _ \<Rightarrow>
          (let (n, s1) = normalizeDomainS env s (Name q)
           in (n @ '':'' @ showNat (unat (Qtype q)) @ '':'' @ showNat (unat (Qclass q)), s1)))"

text \<open>The logging helpers print nothing here; what remains of them is the normalizer call.\<close>

definition logCacheHit :: "Env \<Rightarrow> DNSServer \<Rightarrow> Msg \<Rightarrow> Msg \<Rightarrow> DNSServer" where
  "logCacheHit env s cachedMsg r =
     (case Question r of [] \<Rightarrow> s | q # _ \<Rightarrow> snd (normalizeDomainS env s (Name q)))"

definition getCachedResponse ::
  "Env \<Rightarrow> DNSServer \<Rightarrow> Msg \<Rightarrow> netIP option \<Rightarrow> Msg option \<times> DNSServer" where
  "getCachedResponse env s r clientIP =
     (if CacheTTL (config s) \<le> 0 \<and> NegativeCacheTTL (config s) \<le> 0 then (None, s)
      else
        (let (key, s1) = getCacheKey env s r
         in if key = [] then (None, s1)
            else
              (case map_of (cache s1) key of
                 None \<Rightarrow> (None, s1)
               | Some entry \<Rightarrow>
                   (let (now, s2) = timeNow env s1
                    in if now > ExpiresAt entry then (None, s2)
                       else
                         (let cachedMsg = (Message entry)\<lparr>Id := Id r, Question := Question r,
                                RecursionDesired := RecursionDesired r,
                                CheckingDisabled := CheckingDisabled r\<rparr>
                          in (Some cachedMsg, logCacheHit env s2 cachedMsg r))))))"

definition isNegativeResponse :: "Msg option \<Rightarrow> bool" where
  "isNegativeResponse resp =
     (case resp of
        None \<Rightarrow> False
      | Some m \<Rightarrow>
          (if Rcode m = RcodeNameError then True
           else if Rcode m = RcodeServerFailure then True
           else if Rcode m = RcodeRefused then True
           else if Rcode m = RcodeNotImplemented then True
           else if Rcode m = RcodeSuccess \<and> length (Answer m) = 0 then True
           else False))"

definition validateResponse ::
  "Env \<Rightarrow> DNSServer \<Rightarrow> Msg option \<Rightarrow> Msg option \<Rightarrow> bool \<times> DNSServer" where
  "validateResponse env s r resp =
     (case (r, resp) of
        (Some rq, Some rs) \<Rightarrow>
          (case (Question rs, Question rq) of
             (qs # _, qr # _) \<Rightarrow>
               (let (reqQ, s1) = normalizeDomainS env s (Name qr);
                    (respQ, s2) = normalizeDomainS env s1 (Name qs)
                in if reqQ \<noteq> respQ then (False, s2)
                   else if Qtype qr \<noteq> Qtype qs then (False, s2)
                   else if Qclass qr \<noteq> Qclass qs then (False, s2)
                   else (True, s2))
           | _ \<Rightarrow> (False, s))
      | _ \<Rightarrow> (False, s))"

text \<open>The scan for the oldest entry of \<^verbatim>\<open>evictOldestCacheEntry\<close>, and the function itself.\<close>

fun findOldest ::
  "(string \<times> CacheEntry) list \<Rightarrow> (string \<times> time) option \<Rightarrow> (string \<times> time) option" where
  "findOldest [] found = found"
| "findOldest ((key, entry) # rest) found =
     findOldest rest
       (case found of
          None \<Rightarrow> Some (key, ExpiresAt entry)
        | Some (oldestKey, oldestTime) \<Rightarrow>
            if ExpiresAt entry < oldestTime then Some (key, ExpiresAt entry) else found)"

definition evictOldestCacheEntry :: "Env \<Rightarrow> DNSServer \<Rightarrow> DNSServer" where
  "evictOldestCacheEntry env s =
     (let (now, s1) = timeNow env s
      in case findOldest (cache s1) None of
           None \<Rightarrow> s1
         | Some (oldestKey, oldestTime) \<Rightarrow>
             if now > oldestTime then s1\<lparr>cache := AList.delete oldestKey (cache s1)\<rparr>
             else s1\<lparr>cache := AList.delete oldestKey (cache s1)\<rparr>)"

text \<open>\<^verbatim>\<open>time.Duration(ttl) * time.Second\<close>, a product of 64-bit integers.\<close>

definition ttlDuration :: "int \<Rightarrow> int" where
  "ttlDuration ttl = sint ((word_of_int ttl :: 64 word) * 1000000000)"

text \<open>
  The TTL of a negative entry (lines 127 to 146 of \<^verbatim>\<open>cacheNegativeResponse\<close>): the first
  loop stops at the first SOA record, the second runs when the TTL still has its initial
  value.
\<close>

fun soaScan :: "int \<Rightarrow> RR list \<Rightarrow> int" where
  "soaScan ttl [] = ttl"
| "soaScan ttl (rr # rest) =
     (case Rdata rr of
        SOAData ns mbox serial refresh retry expire minttl \<Rightarrow>
          (if minttl > 0 \<and> uint minttl < ttl then uint minttl else ttl)
      | _ \<Rightarrow> soaScan ttl rest)"

fun ttlScan :: "int \<Rightarrow> RR list \<Rightarrow> int" where
  "ttlScan ttl [] = ttl"
| "ttlScan ttl (rr # rest) =
     ttlScan (if Ttl rr > 0 \<and> uint (Ttl rr) < ttl then uint (Ttl rr) else ttl) rest"

definition negativeTTL :: "int \<Rightarrow> RR list \<Rightarrow> int" where
  "negativeTTL negativeTTL0 ns =
     (if length ns > 0
      then (let ttl = soaScan negativeTTL0 ns
            in if ttl = negativeTTL0 then ttlScan ttl ns else ttl)
      else negativeTTL0)"

definition logCachedNegative :: "Env \<Rightarrow> DNSServer \<Rightarrow> Msg \<Rightarrow> Msg \<Rightarrow> int \<Rightarrow> DNSServer" where
  "logCachedNegative env s resp r ttl =
     (case Question r of [] \<Rightarrow> s | q # _ \<Rightarrow> snd (normalizeDomainS env s (Name q)))"

definition cacheNegativeResponse ::
  "Env \<Rightarrow> DNSServer \<Rightarrow> Msg \<Rightarrow> Msg \<Rightarrow> string \<Rightarrow> DNSServer" where
  "cacheNegativeResponse env s r resp key =
     (if NegativeCacheTTL (config s) \<le> 0 then s
      else
        (let ttl = negativeTTL (NegativeCacheTTL (config s)) (Ns resp)
         in if ttl < 1 then s
            else
              (let s1 = (if maxCacheSize s > 0 \<and> int (length (cache s)) \<ge> maxCacheSize s
                         then evictOldestCacheEntry env s else s);
                   (now, s2) = timeNow env s1;
                   s3 = s2\<lparr>cache := AList.update key
                          \<lparr>Message = resp, ExpiresAt = now + ttlDuration ttl\<rparr> (cache s2)\<rparr>
               in logCachedNegative env s3 resp r ttl)))"

text \<open>The TTL of a positive entry (lines 184 to 201 of \<^verbatim>\<open>cachePositiveResponse\<close>).\<close>

fun minTTLScan :: "32 word \<Rightarrow> RR list \<Rightarrow> 32 word" where
  "minTTLScan minTTL [] = minTTL"
| "minTTLScan minTTL (rr # rest) = minTTLScan (if Ttl rr < minTTL then Ttl rr else minTTL) rest"

definition positiveTTL :: "int \<Rightarrow> RR list \<Rightarrow> int" where
  "positiveTTL ttl answer =
     (if length answer > 0
      then (let minTTL0 = (if ttl > 0 \<and> ttl \<le> 4294967295 then word_of_int ttl else 4294967295);
                minTTL = minTTLScan minTTL0 answer
            in if minTTL < 4294967295 \<and> uint minTTL < ttl then uint minTTL else ttl)
      else ttl)"

definition cachePositiveResponse ::
  "Env \<Rightarrow> DNSServer \<Rightarrow> Msg \<Rightarrow> Msg \<Rightarrow> string \<Rightarrow> error + DNSServer" where
  "cachePositiveResponse env s r resp key =
     (if CacheTTL (config s) \<le> 0 then Inr s
      else if Rcode resp \<noteq> RcodeSuccess \<or> length (Answer resp) = 0 then Inr s
      else
        (let ttl = positiveTTL (CacheTTL (config s)) (Answer resp)
         in if ttl < 1 then Inr s
            else
              (let s1 = (if maxCacheSize s > 0 \<and> int (length (cache s)) \<ge> maxCacheSize s
                         then evictOldestCacheEntry env s else s);
                   (now, s2) = timeNow env s1;
                   s3 = s2\<lparr>cache := AList.update key
                          \<lparr>Message = resp, ExpiresAt = now + ttlDuration ttl\<rparr> (cache s2)\<rparr>
               in case Question r of
                    [] \<Rightarrow> Inl IndexOutOfRange
                  | q # _ \<Rightarrow> Inr (snd (normalizeDomainS env s3 (Name q))))))"

definition setCachedResponse ::
  "Env \<Rightarrow> DNSServer \<Rightarrow> Msg \<Rightarrow> Msg option \<Rightarrow> error + DNSServer" where
  "setCachedResponse env s r resp =
     (case resp of
        None \<Rightarrow> Inr s
      | Some rs \<Rightarrow>
          (let (key, s1) = getCacheKey env s r
           in if key = [] then Inr s1
              else
                (let (valid, s2) = validateResponse env s1 (Some r) resp
                 in if \<not> valid
                    then (case Question r of
                            [] \<Rightarrow> Inl IndexOutOfRange
                          | q # _ \<Rightarrow> Inr (snd (normalizeDomainS env s2 (Name q))))
                    else if isNegativeResponse resp
                    then Inr (cacheNegativeResponse env s2 r rs key)
                    else cachePositiveResponse env s2 r rs key)))"

definition cleanupExpiredCache :: "Env \<Rightarrow> DNSServer \<Rightarrow> DNSServer" where
  "cleanupExpiredCache env s =
     (let (now, s1) = timeNow env s
      in s1\<lparr>cache := filter (\<lambda>(key, entry). \<not> now > ExpiresAt entry) (cache s1)\<rparr>)"

section \<open>The policy store (blocks.go, overwrites.go)\<close>

definition matchesBlockEntry :: "BlockEntry \<Rightarrow> netIP option \<Rightarrow> bool" where
  "matchesBlockEntry entry clientIP =
     (if length (Subnets entry) = 0 \<and> length (IPs entry) = 0 then True
      else
        (case clientIP of
           None \<Rightarrow> False
         | Some c \<Rightarrow>
             if list_ex (\<lambda>ip. Equal ip c) (IPs entry) then True
             else if list_ex (\<lambda>subnet. Contains subnet c) (Subnets entry) then True
             else False))"

text \<open>
  The loop of \<^verbatim>\<open>isBlocked\<close> over the positions of the name: at a dot that is not the last
  byte, the rest of the name is looked up.
\<close>

fun parentBlocked :: "(string \<rightharpoonup> BlockEntry) \<Rightarrow> netIP option \<Rightarrow> string \<Rightarrow> bool" where
  "parentBlocked b clientIP [] = False"
| "parentBlocked b clientIP (c # rest) =
     (if c = CHR ''.'' \<and> rest \<noteq> [] \<and>
         (case b rest of None \<Rightarrow> False | Some entry \<Rightarrow> matchesBlockEntry entry clientIP)
      then True
      else parentBlocked b clientIP rest)"

definition isBlocked :: "DNSServer \<Rightarrow> string \<Rightarrow> netIP option \<Rightarrow> bool" where
  "isBlocked s domain clientIP =
     (if (case blocked s domain of
            None \<Rightarrow> False
          | Some entry \<Rightarrow> matchesBlockEntry entry clientIP)
      then True
      else parentBlocked (blocked s) clientIP domain)"

definition getOverwrite :: "DNSServer \<Rightarrow> string \<Rightarrow> netIP option \<Rightarrow> string option" where
  "getOverwrite s domain clientIP =
     (case overwrites s domain of
        None \<Rightarrow> None
      | Some entry \<Rightarrow>
          if length (OverwriteSubnets entry) = 0 \<and> length (OverwriteIPs entry) = 0
          then Some (IP entry)
          else
            (case clientIP of
               None \<Rightarrow> None
             | Some c \<Rightarrow>
                 if list_ex (\<lambda>ip. Equal ip c) (OverwriteIPs entry) then Some (IP entry)
                 else if list_ex (\<lambda>subnet. Contains subnet c) (OverwriteSubnets entry)
                 then Some (IP entry)
                 else None))"


section \<open>The upstream forwarder (forward.go)\<close>

definition protocolUDP :: string where "protocolUDP = ''udp''"
definition protocolTCP :: string where "protocolTCP = ''tcp''"
definition protocolDOT :: string where "protocolDOT = ''dot''"
definition protocolDOH :: string where "protocolDOH = ''doh''"

text \<open>\<^verbatim>\<open>net.JoinHostPort\<close>: a host with a colon is put in brackets.\<close>

definition JoinHostPort :: "string \<Rightarrow> string \<Rightarrow> string" where
  "JoinHostPort host port =
     (if CHR '':'' \<in> set host then ''['' @ host @ '']:'' @ port else host @ '':'' @ port)"

definition HasPrefix :: "string \<Rightarrow> string \<Rightarrow> bool" where
  "HasPrefix s pre = (take (length pre) s = pre)"

text \<open>
  One upstream exchange: the environment answers the call, and the call is appended to the
  log.  For DNS over HTTPS the call stands for packing the query and the POST and GET
  requests of \<^verbatim>\<open>buildDOHRequest\<close>; the address of the endpoint is computed as in
  \<^verbatim>\<open>forwardDOH\<close>.
\<close>

definition doExchange :: "Env \<Rightarrow> DNSServer \<Rightarrow> NetCall \<Rightarrow> Exch \<times> DNSServer" where
  "doExchange env s c = (exchange env (length (netlog s)) c, s\<lparr>netlog := netlog s @ [c]\<rparr>)"

definition dohURL :: "NameserverConfig \<Rightarrow> string" where
  "dohURL nameserver =
     (if HasPrefix (Address nameserver) ''http://'' \<or> HasPrefix (Address nameserver) ''https://''
      then Address nameserver
      else if Address nameserver = ''1.1.1.1'' \<or> Address nameserver = ''1.0.0.1''
      then ''https://cloudflare-dns.com/dns-query''
      else if Address nameserver = ''8.8.8.8'' \<or> Address nameserver = ''8.8.4.4''
      then ''https://dns.google/dns-query''
      else ''https://'' @ Address nameserver @ ''/dns-query'')"

definition forwardDOH :: "Env \<Rightarrow> DNSServer \<Rightarrow> Msg \<Rightarrow> NameserverConfig \<Rightarrow> Exch \<times> DNSServer" where
  "forwardDOH env s r nameserver = doExchange env s (DoHExchange (dohURL nameserver) r)"

definition forwardDOT :: "Env \<Rightarrow> DNSServer \<Rightarrow> Msg \<Rightarrow> string \<Rightarrow> string \<Rightarrow> Exch \<times> DNSServer" where
  "forwardDOT env s r address serverName =
     doExchange env s
       (Exchange \<lparr>Net = ''tcp-tls'', Timeout = 5, ServerName = serverName\<rparr> r address)"

definition forwardToNameserver ::
  "Env \<Rightarrow> DNSServer \<Rightarrow> Msg \<Rightarrow> NameserverConfig \<Rightarrow> string \<Rightarrow> Exch \<times> DNSServer" where
  "forwardToNameserver env s r nameserver address =
     (if Protocol nameserver = protocolDOH then forwardDOH env s r nameserver
      else if Protocol nameserver = protocolDOT
      then forwardDOT env s r address (Address nameserver)
      else if Protocol nameserver = protocolTCP
      then doExchange env s (Exchange \<lparr>Net = protocolTCP, Timeout = 5, ServerName = []\<rparr> r address)
      else doExchange env s (Exchange (client s) r address))"

definition isTCPBasedProtocol :: "string \<Rightarrow> bool" where
  "isTCPBasedProtocol protocol =
     (protocol = protocolTCP \<or> protocol = protocolDOT \<or> protocol = protocolDOH)"

definition handleTruncatedResponse ::
  "Env \<Rightarrow> DNSServer \<Rightarrow> Msg \<Rightarrow> string \<Rightarrow> string \<Rightarrow> Msg option \<times> DNSServer" where
  "handleTruncatedResponse env s r address domain =
     (let (res, s1) =
            doExchange env s (Exchange \<lparr>Net = protocolTCP, Timeout = 5, ServerName = []\<rparr> r address)
      in case res of
           ExchOk (Some tcpResp) \<Rightarrow>
             (let (valid, s2) = validateResponse env s1 (Some r) (Some tcpResp)
              in if valid then (Some tcpResp, s2) else (None, s2))
         | _ \<Rightarrow> (None, s1))"

definition tryForwardToNameserver ::
  "Env \<Rightarrow> DNSServer \<Rightarrow> Msg \<Rightarrow> NameserverConfig \<Rightarrow> string \<Rightarrow> Msg option \<times> DNSServer" where
  "tryForwardToNameserver env s r nameserver domain =
     (let address = JoinHostPort (Address nameserver) (showInt (Port nameserver));
          (res, s1) = forwardToNameserver env s r nameserver address
      in case res of
           ExchErr \<Rightarrow> (None, s1)
         | ExchOk None \<Rightarrow> (None, s1)
         | ExchOk (Some resp) \<Rightarrow>
             (let (valid, s2) = validateResponse env s1 (Some r) (Some resp)
              in if \<not> valid then (None, s2)
                 else if Truncated resp \<and> \<not> isTCPBasedProtocol (Protocol nameserver)
                 then handleTruncatedResponse env s2 r address domain
                 else (Some resp, s2)))"

text \<open>
  The loop of \<^verbatim>\<open>forwardDirectInternal\<close>; the last argument counts the iterations that
  remain.
\<close>

fun tryNameservers ::
  "Env \<Rightarrow> DNSServer \<Rightarrow> Msg \<Rightarrow> string \<Rightarrow> nat \<Rightarrow> nat \<Rightarrow> nat \<Rightarrow> Msg option \<times> DNSServer" where
  "tryNameservers env s r domain startIdx i 0 = (None, s)"
| "tryNameservers env s r domain startIdx i (Suc n) =
     (let idx = (startIdx + i) mod length (nameservers s);
          nameserver = nameservers s ! idx;
          (resp, s1) = tryForwardToNameserver env s r nameserver domain
      in case resp of
           Some m \<Rightarrow> (Some m, s1)
         | None \<Rightarrow> tryNameservers env s1 r domain startIdx (Suc i) n)"

definition startIndex :: "DNSServer \<Rightarrow> nat" where
  "startIndex s =
     (let nsCount = (of_nat (length (nameservers s)) :: 64 word);
          idxValue = (nameserverIdx s + 1) - 1;
          modValue = idxValue mod nsCount
      in unat modValue)"

definition forwardDirectInternal ::
  "Env \<Rightarrow> DNSServer \<Rightarrow> Msg \<Rightarrow> string \<Rightarrow> Msg option \<times> DNSServer" where
  "forwardDirectInternal env s r domain =
     (if length (nameservers s) = 0 then (None, s)
      else
        (let startIdx = startIndex s;
             s1 = s\<lparr>nameserverIdx := nameserverIdx s + 1\<rparr>
         in tryNameservers env s1 r domain startIdx 0 (length (nameservers s1))))"

definition createNXDOMAINResponse :: "Msg \<Rightarrow> Msg" where
  "createNXDOMAINResponse r =
     SetRcode ((SetReply newMsg r)\<lparr>Authoritative := True\<rparr>) r RcodeNameError"

definition sendErrorResponse :: "DNSServer \<Rightarrow> Msg \<Rightarrow> int \<Rightarrow> DNSServer" where
  "sendErrorResponse s r rcode = WriteMsgTo s (SetRcode (SetReply newMsg r) r rcode)"

definition sendResponse :: "DNSServer \<Rightarrow> Msg \<Rightarrow> Msg option \<Rightarrow> DNSServer" where
  "sendResponse s r resp =
     (case resp of
        Some m \<Rightarrow> WriteMsgTo s (m\<lparr>Id := Id r, Question := Question r\<rparr>)
      | None \<Rightarrow> sendErrorResponse s r RcodeServerFailure)"

fun notifyWaiters :: "DNSServer \<Rightarrow> nat list \<Rightarrow> Msg option \<Rightarrow> Msg \<Rightarrow> DNSServer" where
  "notifyWaiters s [] resp r = s"
| "notifyWaiters s (waiter # rest) resp r =
     notifyWaiters
       (case resp of
          Some m \<Rightarrow> s\<lparr>out := out s @ [ChanSend waiter (m\<lparr>Id := Id r, Question := Question r\<rparr>)]\<rparr>
        | None \<Rightarrow> s\<lparr>out := out s @ [ChanClose waiter]\<rparr>)
       rest resp r"

text \<open>
  The coalescing registry maps a key to the waiter channels of its pending request.  The
  model runs one request at a time: the leader finds the waiters that the state holds, and a
  follower ends by waiting on its channel (\<open>AwaitChan\<close>); what it does when the channel
  delivers or the ten seconds pass belongs to the interleaving with the leader and is not
  part of this model.
\<close>

definition takeWaiters :: "DNSServer \<Rightarrow> string \<Rightarrow> nat list \<times> DNSServer" where
  "takeWaiters s key =
     (case pendingRequests s key of
        None \<Rightarrow> ([], s)
      | Some waiters \<Rightarrow> (waiters, s\<lparr>pendingRequests := (pendingRequests s)(key \<mapsto> [])\<rparr>))"

definition deletePending :: "DNSServer \<Rightarrow> string \<Rightarrow> DNSServer" where
  "deletePending s key = s\<lparr>pendingRequests := (pendingRequests s)(key := None)\<rparr>"

definition handleFirstRequest ::
  "Env \<Rightarrow> DNSServer \<Rightarrow> Msg \<Rightarrow> string \<Rightarrow> string \<Rightarrow> error + DNSServer" where
  "handleFirstRequest env s r domain key =
     (let (cachedResp, s1) = getCachedResponse env s r None
      in case cachedResp of
           Some c \<Rightarrow>
             (let (waiters, s2) = takeWaiters s1 key;
                  s3 = sendResponse s2 r (Some c);
                  s4 = notifyWaiters s3 waiters (Some (c\<lparr>Id := Id r, Question := Question r\<rparr>)) r
              in Inr (deletePending s4 key))
         | None \<Rightarrow>
             (let (fwd, s2) = forwardDirectInternal env s1 r domain;
                  resp = (case fwd of None \<Rightarrow> createNXDOMAINResponse r | Some m \<Rightarrow> m)
              in case setCachedResponse env s2 r (Some resp) of
                   Inl e \<Rightarrow> Inl e
                 | Inr s3 \<Rightarrow>
                     (let (waiters, s4) = takeWaiters s3 key;
                          s5 = sendResponse s4 r (Some resp);
                          s6 = notifyWaiters s5 waiters
                                 (Some (resp\<lparr>Id := Id r, Question := Question r\<rparr>)) r
                      in Inr (deletePending s6 key))))"

definition waitForPendingRequest :: "DNSServer \<Rightarrow> Msg \<Rightarrow> string \<Rightarrow> DNSServer" where
  "waitForPendingRequest s r key =
     (let responseChan = nextChan s;
          waiters = (case pendingRequests s key of None \<Rightarrow> [] | Some ws \<Rightarrow> ws)
      in s\<lparr>nextChan := Suc responseChan,
           pendingRequests := (pendingRequests s)(key \<mapsto> waiters @ [responseChan]),
           out := out s @ [AwaitChan responseChan]\<rparr>)"

definition forwardDirect :: "Env \<Rightarrow> DNSServer \<Rightarrow> Msg \<Rightarrow> string \<Rightarrow> error + DNSServer" where
  "forwardDirect env s r domain =
     (let (fwd, s1) = forwardDirectInternal env s r domain;
          resp = (case fwd of None \<Rightarrow> createNXDOMAINResponse r | Some m \<Rightarrow> m)
      in case setCachedResponse env s1 r (Some resp) of
           Inl e \<Rightarrow> Inl e
         | Inr s2 \<Rightarrow> Inr (WriteMsgTo s2 resp))"

definition forwardRequest ::
  "Env \<Rightarrow> DNSServer \<Rightarrow> Msg \<Rightarrow> string \<Rightarrow> netIP option \<Rightarrow> error + DNSServer" where
  "forwardRequest env s r domain clientIP =
     (if length (nameservers s) = 0 then Inr (sendErrorResponse s r RcodeServerFailure)
      else
        (let (cachedResp, s1) = getCachedResponse env s r clientIP
         in case cachedResp of
              Some c \<Rightarrow> Inr (WriteMsgTo s1 c)
            | None \<Rightarrow>
                (let (key, s2) = getCacheKey env s1 r
                 in if key = [] then forwardDirect env s2 r domain
                    else
                      (case pendingRequests s2 key of
                         None \<Rightarrow>
                           handleFirstRequest env
                             (s2\<lparr>pendingRequests := (pendingRequests s2)(key \<mapsto> [])\<rparr>)
                             r domain key
                       | Some pending \<Rightarrow> Inr (waitForPendingRequest s2 r key)))))"

section \<open>The request handler\<close>

text \<open>
  \<^verbatim>\<open>handleDNSRequest\<close>; the client address is what \<^verbatim>\<open>getClientIP\<close> finds for the
  response writer.  Reading \<^verbatim>\<open>r.Question[0]\<close> of a message without a question is a
  run-time panic, the error \<open>IndexOutOfRange\<close>.
\<close>

definition handleDNSRequest ::
  "Env \<Rightarrow> DNSServer \<Rightarrow> netIP option \<Rightarrow> Msg \<Rightarrow> error + DNSServer" where
  "handleDNSRequest env s clientIP r =
     (let (cachedResp, s1) = getCachedResponse env s r clientIP
      in case cachedResp of
           Some c \<Rightarrow> Inr (WriteMsgTo s1 c)
         | None \<Rightarrow>
             (case Question r of
                [] \<Rightarrow> Inl IndexOutOfRange
              | q # _ \<Rightarrow>
                  (let (domain, s2) = normalizeDomainS env s1 (Name q)
                   in if isBlocked s2 domain clientIP
                      then Inr (WriteMsgTo s2
                                 (SetRcode ((SetReply newMsg r)\<lparr>Authoritative := True\<rparr>) r
                                    RcodeNameError))
                      else
                        (case getOverwrite s2 domain clientIP of
                           Some ip \<Rightarrow>
                             (let msg = (SetReply newMsg r)\<lparr>Authoritative := True\<rparr>
                              in case NewRR env (Name q @ '' 300 IN A '' @ ip) of
                                   Some rr \<Rightarrow> Inr (WriteMsgTo s2 (msg\<lparr>Answer := Answer msg @ [rr]\<rparr>))
                                 | None \<Rightarrow> forwardRequest env s2 r domain clientIP)
                         | None \<Rightarrow> forwardRequest env s2 r domain clientIP))))"

section \<open>Loading the overrides (config.go)\<close>

text \<open>
  A value of the configuration file as the YAML library hands it over, an
  \<^verbatim>\<open>interface{}\<close>; a Go map is the list of its bindings in the order of one iteration.
\<close>

datatype iface =
    INil
  | IString string
  | IInt int
  | IList "iface list"
  | IMapS "(string \<times> iface) list"
  | IMapI "(iface \<times> iface) list"










fun firstSOAMinimum :: "RR list \<Rightarrow> 32 word option" where
  "firstSOAMinimum [] = None"
| "firstSOAMinimum (rr # rest) =
     (case Rdata rr of
        SOAData ns mbox serial refresh retry expire minttl \<Rightarrow> Some minttl
      | _ \<Rightarrow> firstSOAMinimum rest)"

definition soaRecord :: "32 word \<Rightarrow> 32 word \<Rightarrow> RR" where
  "soaRecord ttl minttl =
     \<lparr>Hdr_Name = ''example.'', Rrtype = 6, Class = 1, Ttl = ttl,
      Rdata = SOAData ''ns.example.'' ''root.example.'' 1 7200 900 1209600 minttl\<rparr>"

definition cacheStore :: "Env \<Rightarrow> DNSServer \<Rightarrow> string \<Rightarrow> Msg \<Rightarrow> int \<Rightarrow> DNSServer" where
  "cacheStore env s key resp ttl =
     (let s1 = (if maxCacheSize s > 0 \<and> int (length (cache s)) \<ge> maxCacheSize s
                then evictOldestCacheEntry env s else s);
          (now, s2) = timeNow env s1
      in s2\<lparr>cache := AList.update key
             \<lparr>Message = resp, ExpiresAt = now + ttlDuration ttl\<rparr> (cache s2)\<rparr>)"

text \<open>
  The environment of the examples: every exchange fails, the clock stands at 1000, the
  parsers reject every text.  The examples hold ASCII text only, so the Unicode paths of
  package \<^verbatim>\<open>strings\<close> are never taken; they return their argument here.
\<close>

definition exEnv :: Env where
  "exEnv = \<lparr>exchange = (\<lambda>n c. ExchErr), clock = (\<lambda>n. 1000), NewRR = (\<lambda>str. None),
            ParseIP = (\<lambda>str. None), ParseCIDR = (\<lambda>str. None),
            ToLowerUnicode = (\<lambda>str. str), TrimSpaceUnicode = (\<lambda>str. str)\<rparr>"

definition exServer :: DNSServer where
  "exServer =
     \<lparr>config = \<lparr>CacheTTL = 60, NegativeCacheTTL = 300, MaxCacheSize = 0\<rparr>,
      blocked = Map.empty, overwrites = Map.empty,
      nameservers = [\<lparr>Address = ''192.0.2.1'', Protocol = ''udp'', Port = 53\<rparr>],
      cache = [], maxCacheSize = 0, pendingRequests = Map.empty,
      client = \<lparr>Net = [], Timeout = 5, ServerName = []\<rparr>,
      nameserverIdx = 0, domainCache = Map.empty, netlog = [], out = [],
      clockReads = 0, nextChan = 0\<rparr>"

definition exQuery :: Msg where
  "exQuery = newMsg\<lparr>Id := 7, RecursionDesired := True,
               Question := [\<lparr>Name = ''example.com.'', Qtype = 1, Qclass = 1\<rparr>]\<rparr>"

definition nxResponse :: "32 word \<Rightarrow> 32 word \<Rightarrow> Msg" where
  "nxResponse ttl minttl =
     newMsg\<lparr>Id := 7, Response := True, Rcode := 3,
            Question := [\<lparr>Name = ''example.com.'', Qtype = 1, Qclass = 1\<rparr>],
            Ns := [soaRecord ttl minttl]\<rparr>"

definition aRecord :: "string \<Rightarrow> 32 word \<Rightarrow> 32 word \<Rightarrow> RR" where
  "aRecord name ttl addr =
     \<lparr>Hdr_Name = name, Rrtype = 1, Class = 1, Ttl = ttl, Rdata = AData addr\<rparr>"

definition posResponse :: Msg where
  "posResponse =
     newMsg\<lparr>Id := 7, Response := True, RecursionDesired := True, RecursionAvailable := True,
            Question := [\<lparr>Name = ''example.com.'', Qtype = 1, Qclass = 1\<rparr>],
            Answer := [aRecord ''example.com.'' 300 16909060]\<rparr>"

definition exQuery2 :: Msg where
  "exQuery2 = newMsg\<lparr>Id := 9, CheckingDisabled := True,
                Question := [\<lparr>Name = ''EXAMPLE.com.'', Qtype = 1, Qclass = 1\<rparr>]\<rparr>"

definition exFullServer :: DNSServer where
  "exFullServer =
     exServer\<lparr>maxCacheSize := 2,
       cache := [(''old.example:1:1'', \<lparr>Message = posResponse, ExpiresAt = 500\<rparr>),
                 (''new.example:1:1'', \<lparr>Message = posResponse, ExpiresAt = 900\<rparr>)]\<rparr>"

text \<open>
  The words of the specification for the order of the attempts: the endpoints of a list are
  tried one after the other until one yields a response.
\<close>

fun tryInOrder ::
  "Env \<Rightarrow> DNSServer \<Rightarrow> Msg \<Rightarrow> string \<Rightarrow> NameserverConfig list \<Rightarrow> Msg option \<times> DNSServer" where
  "tryInOrder env s r domain [] = (None, s)"
| "tryInOrder env s r domain (nameserver # rest) =
     (case tryForwardToNameserver env s r nameserver domain of
        (Some m, s1) \<Rightarrow> (Some m, s1)
      | (None, s1) \<Rightarrow> tryInOrder env s1 r domain rest)"

text \<open>The starting indices of consecutive calls of \<^verbatim>\<open>forwardDirectInternal\<close>.\<close>

fun forwardStarts :: "Env \<Rightarrow> DNSServer \<Rightarrow> (Msg \<times> string) list \<Rightarrow> nat list" where
  "forwardStarts env s [] = []"
| "forwardStarts env s ((r, domain) # rest) =
     startIndex s # forwardStarts env (snd (forwardDirectInternal env s r domain)) rest"

text \<open>An upstream that answers every query with one A record for the name asked.\<close>

definition answerFor :: "Msg \<Rightarrow> Msg" where
  "answerFor m =
     (SetReply newMsg m)\<lparr>RecursionAvailable := True,
        Answer := (case Question m of [] \<Rightarrow> [] | q # _ \<Rightarrow> [aRecord (Name q) 300 16909060])\<rparr>"

definition healthyEnv :: Env where
  "healthyEnv =
     exEnv\<lparr>exchange := (\<lambda>n c. case c of
         Exchange cl m addr \<Rightarrow> ExchOk (Some (answerFor m))
       | DoHExchange url m \<Rightarrow> ExchOk (Some (answerFor m)))\<rparr>"

definition rrServer :: DNSServer where
  "rrServer =
     exServer\<lparr>nameservers :=
       [\<lparr>Address = ''192.0.2.1'', Protocol = ''udp'', Port = 53\<rparr>,
        \<lparr>Address = ''192.0.2.2'', Protocol = ''tcp'', Port = 53\<rparr>,
        \<lparr>Address = ''192.0.2.3'', Protocol = ''udp'', Port = 5353\<rparr>]\<rparr>"

definition wrapServer :: DNSServer where
  "wrapServer = rrServer\<lparr>nameserverIdx := 18446744073709551615\<rparr>"

definition tcpClient :: Client where
  "tcpClient = \<lparr>Net = protocolTCP, Timeout = 5, ServerName = []\<rparr>"

definition truncatedHeader :: Msg where
  "truncatedHeader = newMsg\<lparr>Id := 7, Response := True, Truncated := True\<rparr>"

definition truncatedReply :: Msg where
  "truncatedReply =
     newMsg\<lparr>Id := 7, Response := True, Truncated := True, RecursionDesired := True,
            Question := [\<lparr>Name = ''example.com.'', Qtype = 1, Qclass = 1\<rparr>]\<rparr>"

text \<open>
  Two upstreams: both answer \<^verbatim>\<open>posResponse\<close> over TCP; over UDP the first sends a
  bare truncated header and the second a truncated reply that repeats the question.
\<close>

definition headerOnlyEnv :: Env where
  "headerOnlyEnv =
     exEnv\<lparr>exchange := (\<lambda>n c. case c of
         Exchange cl m addr \<Rightarrow>
           if Net cl = protocolTCP then ExchOk (Some posResponse)
           else ExchOk (Some truncatedHeader)
       | DoHExchange url m \<Rightarrow> ExchErr)\<rparr>"

definition truncatingEnv :: Env where
  "truncatingEnv =
     exEnv\<lparr>exchange := (\<lambda>n c. case c of
         Exchange cl m addr \<Rightarrow>
           if Net cl = protocolTCP then ExchOk (Some posResponse)
           else ExchOk (Some truncatedReply)
       | DoHExchange url m \<Rightarrow> ExchErr)\<rparr>"

definition udpNameserver :: NameserverConfig where
  "udpNameserver = \<lparr>Address = ''192.0.2.1'', Protocol = ''udp'', Port = 53\<rparr>"

definition truncState :: DNSServer where
  "truncState =
     (snd (getCachedResponse truncatingEnv exServer exQuery None))
       \<lparr>nameserverIdx := nameserverIdx (snd (getCachedResponse truncatingEnv exServer exQuery None)) + 1\<rparr>"







text \<open>
  The words of the claims for the deny list: the name itself, or a strict parent suffix of it
  that starts after a dot, has an entry whose predicate matches the client.
\<close>

definition denied :: "(string \<rightharpoonup> BlockEntry) \<Rightarrow> string \<Rightarrow> netIP option \<Rightarrow> bool" where
  "denied b n c =
     ((\<exists>e. b n = Some e \<and> matchesBlockEntry e c)
      \<or> (\<exists>pre parent e. n = pre @ CHR ''.'' # parent \<and> parent \<noteq> []
             \<and> b parent = Some e \<and> matchesBlockEntry e c))"

definition blockServer :: DNSServer where
  "blockServer =
     exServer\<lparr>blocked :=
       [''ads.example'' \<mapsto> \<lparr>Subnets = [\<lparr>NetAddr = IPv4 167772160, Ones = 8\<rparr>], IPs = []\<rparr>]\<rparr>"

definition clientLan :: netIP where "clientLan = IPv4 3232235521"

definition client10 :: netIP where "client10 = IPv4 167838211"

definition adsQuery :: "16 word \<Rightarrow> string \<Rightarrow> Msg" where
  "adsQuery ident name =
     newMsg\<lparr>Id := ident, RecursionDesired := True,
            Question := [\<lparr>Name = name, Qtype = 1, Qclass = 1\<rparr>]\<rparr>"


section \<open>Properties of the normalizer\<close>

lemma toLowerChar_not_upper: "of_char c < (128::nat) \<Longrightarrow> \<not> isUpper (toLowerChar c)"
  by (auto simp: toLowerChar_def isUpper_def)

lemma toLowerChar_ascii: "of_char c < (128::nat) \<Longrightarrow> of_char (toLowerChar c) < (128::nat)"
  by (auto simp: toLowerChar_def isUpper_def)

lemma isASCII_subset: "set t \<subseteq> set s \<Longrightarrow> isASCII s \<Longrightarrow> isASCII t"
  by (auto simp: isASCII_def)

lemma isASCII_ToLower: "isASCII s \<Longrightarrow> isASCII (ToLower env s)"
  by (simp add: ToLower_def isASCII_def toLowerChar_ascii)

lemma isLowercase_ToLower: "isASCII s \<Longrightarrow> isLowercase (ToLower env s)"
  by (simp add: isLowercase_def ToLower_def isASCII_def toLowerChar_not_upper)

lemma set_TrimSpace: "isASCII s \<Longrightarrow> set (TrimSpace env s) \<subseteq> set s"
  by (auto simp: TrimSpace_def dest!: set_dropWhileD)

lemma TrimSuffix_dot:
  "TrimSuffix s ''.'' = (if s \<noteq> [] \<and> last s = CHR ''.'' then butlast s else s)"
proof (cases s rule: rev_cases)
  case Nil
  then show ?thesis by (simp add: TrimSuffix_def)
next
  case (snoc ys y)
  then show ?thesis by (auto simp: TrimSuffix_def)
qed

lemma set_TrimSuffix_dot: "set (TrimSuffix s ''.'') \<subseteq> set s"
  by (auto simp: TrimSuffix_dot dest: in_set_butlastD)

lemma set_normalized:
  assumes "isASCII x"
  shows "set (normalized env x) \<subseteq> set (ToLower env x)"
  unfolding normalized_def
  using set_TrimSuffix_dot[of "TrimSpace env (ToLower env x)"]
    set_TrimSpace[OF isASCII_ToLower[OF assms], of env] by blast

lemma isASCII_normalized: "isASCII x \<Longrightarrow> isASCII (normalized env x)"
  using set_normalized[of x env] isASCII_ToLower[of x env] by (rule isASCII_subset)

lemma isLowercase_normalized: "isASCII x \<Longrightarrow> isLowercase (normalized env x)"
  using set_normalized[of x env] isLowercase_ToLower[of x env] by (auto simp: isLowercase_def)

lemma TrimSpace_cases:
  assumes "isASCII s"
  shows "TrimSpace env s = []
       \<or> (\<not> isSpace (hd (TrimSpace env s)) \<and> \<not> isSpace (last (TrimSpace env s)))"
proof (cases "TrimSpace env s = []")
  case True
  then show ?thesis by simp
next
  case False
  define t where "t = dropWhile isSpace s"
  define u where "u = dropWhile isSpace (rev t)"
  have ts: "TrimSpace env s = rev u" using assms by (simp add: TrimSpace_def t_def u_def)
  with False have une: "u \<noteq> []" by simp
  then have hdu: "\<not> isSpace (hd u)" unfolding u_def by (metis hd_dropWhile)
  have "\<exists>p. rev t = p @ u" unfolding u_def by (metis takeWhile_dropWhile_id)
  then obtain p where p: "rev t = p @ u" by blast
  then have "t = rev u @ rev p" by (metis rev_append rev_rev_ident)
  with une have "hd t = hd (rev u)" by simp
  moreover have "t \<noteq> []" using p une by auto
  then have "\<not> isSpace (hd t)" unfolding t_def by (metis hd_dropWhile)
  ultimately have "\<not> isSpace (hd (rev u))" by simp
  moreover have "last (rev u) = hd u" using une by (simp add: last_rev)
  ultimately show ?thesis using ts hdu by simp
qed

lemma noLeadingSpace_TrimSpace: "isASCII s \<Longrightarrow> noLeadingSpace (TrimSpace env s)"
  using TrimSpace_cases[of s env] by (auto simp: noLeadingSpace_def split: list.splits)

lemma noTrailingSpace_TrimSpace: "isASCII s \<Longrightarrow> noTrailingSpace (TrimSpace env s)"
  using TrimSpace_cases[of s env] by (auto simp: noTrailingSpace_def)

lemma noLeadingSpace_butlast: "noLeadingSpace s \<Longrightarrow> noLeadingSpace (butlast s)"
  by (cases s) (auto simp: noLeadingSpace_def split: list.splits)

lemma noLeadingSpace_normalized: "isASCII x \<Longrightarrow> noLeadingSpace (normalized env x)"
  unfolding normalized_def TrimSuffix_dot
  using noLeadingSpace_TrimSpace[OF isASCII_ToLower, of x env]
  by (simp add: noLeadingSpace_butlast)

lemma ToLower_fixed: "isASCII s \<Longrightarrow> isLowercase s \<Longrightarrow> ToLower env s = s"
  by (simp add: isLowercase_def ToLower_def toLowerChar_def map_idI)

lemma TrimSpace_fixed:
  assumes "isASCII s" and "noLeadingSpace s" and "noTrailingSpace s"
  shows "TrimSpace env s = s"
proof -
  from assms(2) have l: "dropWhile isSpace s = s"
    by (cases s) (simp_all add: noLeadingSpace_def)
  from assms(3) have "dropWhile isSpace (rev s) = rev s"
    by (cases s rule: rev_cases) (simp_all add: noTrailingSpace_def)
  with l assms(1) show ?thesis by (simp add: TrimSpace_def)
qed

lemma normalized_fixed:
  "isASCII s \<Longrightarrow> isLowercase s \<Longrightarrow> noLeadingSpace s \<Longrightarrow> noTrailingSpace s \<Longrightarrow> noTrailingDot s
     \<Longrightarrow> normalized env s = s"
  by (auto simp: normalized_def ToLower_fixed TrimSpace_fixed TrimSuffix_dot noTrailingDot_def)

lemma wellEnded_normalized:
  assumes a: "isASCII x" and w: "wellEnded (TrimSpace env (ToLower env x))"
  shows "noTrailingSpace (normalized env x) \<and> noTrailingDot (normalized env x)"
proof -
  define t where "t = TrimSpace env (ToLower env x)"
  have nts: "noTrailingSpace t"
    unfolding t_def using isASCII_ToLower[OF a] by (rule noTrailingSpace_TrimSpace)
  have n: "normalized env x = (if t \<noteq> [] \<and> last t = CHR ''.'' then butlast t else t)"
    by (simp add: normalized_def t_def TrimSuffix_dot)
  show ?thesis
  proof (cases "t \<noteq> [] \<and> last t = CHR ''.''")
    case False
    with n nts show ?thesis by (auto simp: noTrailingDot_def)
  next
    case True
    then obtain u where u: "t = u @ ''.''" by (metis append_butlast_last_id)
    with w have "u = [] \<or> (last u \<noteq> CHR ''.'' \<and> \<not> isSpace (last u))"
      unfolding t_def[symmetric] wellEnded_def by (cases u rule: rev_cases) auto
    with n u show ?thesis by (auto simp: noTrailingDot_def noTrailingSpace_def)
  qed
qed

lemma normalized_idem:
  assumes "isASCII x" and "wellEnded (TrimSpace env (ToLower env x))"
  shows "normalized env (normalized env x) = normalized env x"
  using wellEnded_normalized[OF assms] isLowercase_normalized[OF assms(1), of env]
    noLeadingSpace_normalized[OF assms(1), of env] isASCII_normalized[OF assms(1), of env]
  by (simp add: normalized_fixed)

text \<open>What one call does to the interning map.\<close>

lemma normalizeDomain_hit:
  "dc x = Some v \<Longrightarrow> normalizeDomain env dc x = (v, dc)"
  by (simp add: normalizeDomain_def)

lemma normalizeDomain_miss:
  "dc x = None \<Longrightarrow> fst (normalizeDomain env dc x) = normalized env x"
  by (simp add: normalizeDomain_def Let_def)

lemma dcClosed_step: "dcClosed dc \<Longrightarrow> dcClosed (snd (normalizeDomain env dc x))"
  unfolding dcClosed_def normalizeDomain_def Let_def
  by (auto split: option.splits if_splits)

lemma dcClosed_after: "dcClosed (domainCacheAfter env xs)"
proof (induction xs rule: rev_induct)
  case Nil
  then show ?case by (simp add: domainCacheAfter_def dcClosed_def)
next
  case (snoc x xs)
  then show ?case using dcClosed_step[of "domainCacheAfter env xs" env x]
    by (simp add: domainCacheAfter_def)
qed

lemma normalizeTwice_closed:
  assumes c: "dcClosed dc" and l: "length (fst (normalizeDomain env dc x)) < 256"
  shows "normalizeTwice env dc x = fst (normalizeDomain env dc x)"
proof (cases "dc x")
  case None
  with l show ?thesis
    by (auto simp: normalizeTwice_def normalizeDomain_def Let_def)
next
  case (Some v)
  with c have "dc v = Some v" by (auto simp: dcClosed_def)
  with Some show ?thesis by (simp add: normalizeTwice_def normalizeDomain_def)
qed

lemma dcPlain_step:
  assumes "dcPlain dc" and "isASCII x"
  shows "dcPlain (snd (normalizeDomain env dc x))"
  using assms(1) isLowercase_normalized[OF assms(2), of env]
    noLeadingSpace_normalized[OF assms(2), of env]
  unfolding dcPlain_def normalizeDomain_def Let_def
  by (auto split: option.splits if_splits)

lemma dcPlain_after: "\<forall>y \<in> set xs. isASCII y \<Longrightarrow> dcPlain (domainCacheAfter env xs)"
proof (induction xs rule: rev_induct)
  case Nil
  then show ?case by (simp add: domainCacheAfter_def dcPlain_def)
next
  case (snoc x xs)
  then show ?case using dcPlain_step[of "domainCacheAfter env xs" x env]
    by (simp add: domainCacheAfter_def)
qed

lemma normalizeDomain_plain:
  assumes "dcPlain dc" and "isASCII x"
  shows "isLowercase (fst (normalizeDomain env dc x))
       \<and> noLeadingSpace (fst (normalizeDomain env dc x))"
  using assms(1) isLowercase_normalized[OF assms(2), of env]
    noLeadingSpace_normalized[OF assms(2), of env]
  unfolding dcPlain_def normalizeDomain_def Let_def
  by (auto split: option.splits)

lemma normalizeDomain_consistent:
  "dcConsistent env dc \<Longrightarrow> fst (normalizeDomain env dc x) = normalized env x"
  by (auto simp: normalizeDomain_def dcConsistent_def Let_def split: option.splits)

lemma normalizeDomain_keeps_consistent:
  assumes "dcConsistent env dc" and "normalized env (normalized env x) = normalized env x"
  shows "dcConsistent env (snd (normalizeDomain env dc x))"
  using assms by (auto simp: normalizeDomain_def dcConsistent_def Let_def split: option.splits)

lemma dcConsistent_after:
  "\<forall>y \<in> set xs. isASCII y \<and> wellEnded (TrimSpace env (ToLower env y))
     \<Longrightarrow> dcConsistent env (domainCacheAfter env xs)"
proof (induction xs rule: rev_induct)
  case Nil
  then show ?case by (simp add: domainCacheAfter_def dcConsistent_def)
next
  case (snoc x xs)
  then have "normalized env (normalized env x) = normalized env x"
    by (simp add: normalized_idem)
  with snoc show ?case
    using normalizeDomain_keeps_consistent[of env "domainCacheAfter env xs" x]
    by (simp add: domainCacheAfter_def)
qed

lemma normalizeTwice_consistent:
  assumes c: "dcConsistent env dc" and i: "normalized env (normalized env x) = normalized env x"
  shows "normalizeTwice env dc x = normalized env x"
proof -
  have c1: "dcConsistent env (snd (normalizeDomain env dc x))"
    using c i by (rule normalizeDomain_keeps_consistent)
  show ?thesis
    using normalizeDomain_consistent[OF c, of x]
      normalizeDomain_consistent[OF c1, of "normalized env x"] i
    by (simp add: normalizeTwice_def split_beta)
qed

text \<open>
  Claim C5, as amended.  Let \<open>n\<close> be what \<^verbatim>\<open>normalizeDomain\<close> returns for the input
  \<open>x\<close> in a process that has normalized the inputs \<open>xs\<close> before.
  \<^item> If \<open>n\<close> is shorter than 256 bytes, normalizing \<open>n\<close> again returns \<open>n\<close>.
  \<^item> If \<open>x\<close> is not yet in the interning map, \<open>n\<close> is \<open>x\<close> lower-cased, trimmed, and
    with one trailing dot removed.
  \<^item> If \<open>x\<close> and the earlier inputs are ASCII text, \<open>n\<close> is lowercase and has no leading
    white space.
  \<^item> If moreover neither \<open>x\<close> nor an earlier input, lower-cased and trimmed, ends in two
    dots or in white space followed by a dot, then \<open>n\<close> is \<open>x\<close> lower-cased, trimmed and
    without its trailing dot, \<open>n\<close> has no trailing white space and no trailing dot, and
    normalizing \<open>n\<close> again returns \<open>n\<close>, whatever its length.
\<close>

theorem normalizeDomain_amended:
  assumes dc: "dc = domainCacheAfter env xs"
    and n: "n = fst (normalizeDomain env dc x)"
  shows "(length n < 256 \<longrightarrow> normalizeTwice env dc x = n)
       \<and> (dc x = None \<longrightarrow> n = TrimSuffix (TrimSpace env (ToLower env x)) ''.'')
       \<and> (isASCII x \<and> (\<forall>y \<in> set xs. isASCII y) \<longrightarrow> isLowercase n \<and> noLeadingSpace n)
       \<and> (isASCII x \<and> wellEnded (TrimSpace env (ToLower env x))
            \<and> (\<forall>y \<in> set xs. isASCII y \<and> wellEnded (TrimSpace env (ToLower env y))) \<longrightarrow>
              n = TrimSuffix (TrimSpace env (ToLower env x)) ''.''
            \<and> noTrailingSpace n \<and> noTrailingDot n
            \<and> normalizeTwice env dc x = n)"
proof -
  have a: "length n < 256 \<longrightarrow> normalizeTwice env dc x = n"
    unfolding n dc using dcClosed_after[of env xs] by (simp add: normalizeTwice_closed)
  have b: "dc x = None \<longrightarrow> n = TrimSuffix (TrimSpace env (ToLower env x)) ''.''"
    unfolding n by (simp add: normalizeDomain_miss normalized_def)
  have c: "isLowercase n \<and> noLeadingSpace n"
    if "isASCII x" and "\<forall>y \<in> set xs. isASCII y"
    unfolding n dc using dcPlain_after[OF that(2), of env] that(1) by (rule normalizeDomain_plain)
  have d: "n = TrimSuffix (TrimSpace env (ToLower env x)) ''.''
         \<and> noTrailingSpace n \<and> noTrailingDot n \<and> normalizeTwice env dc x = n"
    if x: "isASCII x" and w: "wellEnded (TrimSpace env (ToLower env x))"
      and h: "\<forall>y \<in> set xs. isASCII y \<and> wellEnded (TrimSpace env (ToLower env y))"
  proof -
    have cons: "dcConsistent env dc" unfolding dc using h by (rule dcConsistent_after)
    have nn: "n = normalized env x" unfolding n using cons by (rule normalizeDomain_consistent)
    have idem: "normalized env (normalized env x) = normalized env x"
      using x w by (rule normalized_idem)
    show ?thesis
      using nn wellEnded_normalized[OF x w] normalizeTwice_consistent[OF cons idem]
      by (simp add: normalized_def)
  qed
  from a b c d show ?thesis by blast
qed

text \<open>
  The theorem at the input \<^verbatim>\<open>"  Ads.Example.COM. "\<close>, in a process that has normalized
  \<^verbatim>\<open>"Example.com."\<close> before.
\<close>

theorem normalizeDomain_amended_witness:
  "isASCII ''Example.com.'' \<and> wellEnded (TrimSpace exEnv (ToLower exEnv ''Example.com.''))
   \<and> isASCII ''  Ads.Example.COM. ''
   \<and> wellEnded (TrimSpace exEnv (ToLower exEnv ''  Ads.Example.COM. ''))
   \<and> domainCacheAfter exEnv [''Example.com.''] ''  Ads.Example.COM. '' = None
   \<and> fst (normalizeDomain exEnv (domainCacheAfter exEnv [''Example.com.'']) ''  Ads.Example.COM. '')
       = ''ads.example.com''
   \<and> length ''ads.example.com'' < 256
   \<and> isLowercase ''ads.example.com'' \<and> noLeadingSpace ''ads.example.com''
   \<and> noTrailingSpace ''ads.example.com'' \<and> noTrailingDot ''ads.example.com''
   \<and> normalizeTwice exEnv (domainCacheAfter exEnv [''Example.com.'']) ''  Ads.Example.COM. ''
       = ''ads.example.com''"
proof -
  have h: "\<forall>y \<in> set [''Example.com.'']. isASCII y \<and> wellEnded (TrimSpace exEnv (ToLower exEnv y))"
    by code_simp
  have x: "isASCII ''  Ads.Example.COM. ''
         \<and> wellEnded (TrimSpace exEnv (ToLower exEnv ''  Ads.Example.COM. ''))"
    by code_simp
  have m: "domainCacheAfter exEnv [''Example.com.''] ''  Ads.Example.COM. '' = None"
    by code_simp
  have n: "''ads.example.com''
         = fst (normalizeDomain exEnv (domainCacheAfter exEnv [''Example.com.''])
                  ''  Ads.Example.COM. '')"
    by code_simp
  have l: "length ''ads.example.com'' < 256" by simp
  from h have h1: "\<forall>y \<in> set [''Example.com.'']. isASCII y" by blast
  from h have h2: "isASCII ''Example.com.''
      \<and> wellEnded (TrimSpace exEnv (ToLower exEnv ''Example.com.''))" by simp
  show ?thesis
    using normalizeDomain_amended[OF refl n] h h1 h2 x m l n[symmetric] by blast
qed

text \<open>
  Claim C5 as stated fails, on ASCII input and in one process.  \<^verbatim>\<open>TrimSuffix\<close> removes
  one dot: \<^verbatim>\<open>"a.."\<close> is normalized to \<^verbatim>\<open>"a."\<close>, which ends in a dot, and
  \<^verbatim>\<open>"a ."\<close> to \<^verbatim>\<open>"a "\<close>, which ends in a space.  After \<^verbatim>\<open>"a.."\<close> the interning
  map returns \<^verbatim>\<open>"a."\<close> for the input \<^verbatim>\<open>"a."\<close> too.  A result of 256 bytes is not
  interned: 255 letters followed by two dots are normalized to the letters and one dot, and
  normalizing that again removes the dot.
\<close>

theorem normalizeDomain_counterexample:
  "fst (normalizeDomain exEnv Map.empty ''a..'') = ''a.''
   \<and> \<not> noTrailingDot (fst (normalizeDomain exEnv Map.empty ''a..''))
   \<and> fst (normalizeDomain exEnv Map.empty ''a .'') = ''a ''
   \<and> \<not> noTrailingSpace (fst (normalizeDomain exEnv Map.empty ''a .''))
   \<and> fst (normalizeDomain exEnv (domainCacheAfter exEnv [''a..'']) ''a.'') = ''a.''
   \<and> fst (normalizeDomain exEnv Map.empty (replicate 255 CHR ''a'' @ ''..''))
       = replicate 255 CHR ''a'' @ ''.''
   \<and> normalizeTwice exEnv Map.empty (replicate 255 CHR ''a'' @ ''..'') = replicate 255 CHR ''a''"
  by code_simp

lemma normalizeDomainS_frame [simp]:
  "config (snd (normalizeDomainS env s x)) = config s
     \<and> blocked (snd (normalizeDomainS env s x)) = blocked s
     \<and> overwrites (snd (normalizeDomainS env s x)) = overwrites s
     \<and> nameservers (snd (normalizeDomainS env s x)) = nameservers s
     \<and> cache (snd (normalizeDomainS env s x)) = cache s
     \<and> maxCacheSize (snd (normalizeDomainS env s x)) = maxCacheSize s
     \<and> pendingRequests (snd (normalizeDomainS env s x)) = pendingRequests s
     \<and> client (snd (normalizeDomainS env s x)) = client s
     \<and> nameserverIdx (snd (normalizeDomainS env s x)) = nameserverIdx s
     \<and> netlog (snd (normalizeDomainS env s x)) = netlog s
     \<and> out (snd (normalizeDomainS env s x)) = out s
     \<and> clockReads (snd (normalizeDomainS env s x)) = clockReads s
     \<and> nextChan (snd (normalizeDomainS env s x)) = nextChan s"
  by (simp add: normalizeDomainS_def split_beta)

lemma getCacheKey_frame [simp]:
  "config (snd (getCacheKey env s r)) = config s
     \<and> blocked (snd (getCacheKey env s r)) = blocked s
     \<and> overwrites (snd (getCacheKey env s r)) = overwrites s
     \<and> nameservers (snd (getCacheKey env s r)) = nameservers s
     \<and> cache (snd (getCacheKey env s r)) = cache s
     \<and> maxCacheSize (snd (getCacheKey env s r)) = maxCacheSize s
     \<and> pendingRequests (snd (getCacheKey env s r)) = pendingRequests s
     \<and> client (snd (getCacheKey env s r)) = client s
     \<and> nameserverIdx (snd (getCacheKey env s r)) = nameserverIdx s
     \<and> netlog (snd (getCacheKey env s r)) = netlog s
     \<and> out (snd (getCacheKey env s r)) = out s
     \<and> clockReads (snd (getCacheKey env s r)) = clockReads s
     \<and> nextChan (snd (getCacheKey env s r)) = nextChan s"
  by (simp add: getCacheKey_def split_beta split: list.splits)

lemma logCacheHit_frame [simp]:
  "config (logCacheHit env s m r) = config s
     \<and> blocked (logCacheHit env s m r) = blocked s
     \<and> overwrites (logCacheHit env s m r) = overwrites s
     \<and> nameservers (logCacheHit env s m r) = nameservers s
     \<and> cache (logCacheHit env s m r) = cache s
     \<and> maxCacheSize (logCacheHit env s m r) = maxCacheSize s
     \<and> pendingRequests (logCacheHit env s m r) = pendingRequests s
     \<and> client (logCacheHit env s m r) = client s
     \<and> nameserverIdx (logCacheHit env s m r) = nameserverIdx s
     \<and> netlog (logCacheHit env s m r) = netlog s
     \<and> out (logCacheHit env s m r) = out s
     \<and> clockReads (logCacheHit env s m r) = clockReads s
     \<and> nextChan (logCacheHit env s m r) = nextChan s"
  by (simp add: logCacheHit_def split: list.splits)

lemma logCachedNegative_frame [simp]:
  "config (logCachedNegative env s m r t) = config s
     \<and> blocked (logCachedNegative env s m r t) = blocked s
     \<and> overwrites (logCachedNegative env s m r t) = overwrites s
     \<and> nameservers (logCachedNegative env s m r t) = nameservers s
     \<and> cache (logCachedNegative env s m r t) = cache s
     \<and> maxCacheSize (logCachedNegative env s m r t) = maxCacheSize s
     \<and> pendingRequests (logCachedNegative env s m r t) = pendingRequests s
     \<and> client (logCachedNegative env s m r t) = client s
     \<and> nameserverIdx (logCachedNegative env s m r t) = nameserverIdx s
     \<and> netlog (logCachedNegative env s m r t) = netlog s
     \<and> out (logCachedNegative env s m r t) = out s
     \<and> clockReads (logCachedNegative env s m r t) = clockReads s
     \<and> nextChan (logCachedNegative env s m r t) = nextChan s"
  by (simp add: logCachedNegative_def split: list.splits)

lemma validateResponse_frame [simp]:
  "config (snd (validateResponse env s r resp)) = config s
     \<and> blocked (snd (validateResponse env s r resp)) = blocked s
     \<and> overwrites (snd (validateResponse env s r resp)) = overwrites s
     \<and> nameservers (snd (validateResponse env s r resp)) = nameservers s
     \<and> cache (snd (validateResponse env s r resp)) = cache s
     \<and> maxCacheSize (snd (validateResponse env s r resp)) = maxCacheSize s
     \<and> pendingRequests (snd (validateResponse env s r resp)) = pendingRequests s
     \<and> client (snd (validateResponse env s r resp)) = client s
     \<and> nameserverIdx (snd (validateResponse env s r resp)) = nameserverIdx s
     \<and> netlog (snd (validateResponse env s r resp)) = netlog s
     \<and> out (snd (validateResponse env s r resp)) = out s
     \<and> clockReads (snd (validateResponse env s r resp)) = clockReads s
     \<and> nextChan (snd (validateResponse env s r resp)) = nextChan s"
  by (simp add: validateResponse_def split_beta split: option.splits list.splits)

lemma timeNow_frame [simp]:
  "config (snd (timeNow env s)) = config s
     \<and> blocked (snd (timeNow env s)) = blocked s
     \<and> overwrites (snd (timeNow env s)) = overwrites s
     \<and> nameservers (snd (timeNow env s)) = nameservers s
     \<and> cache (snd (timeNow env s)) = cache s
     \<and> maxCacheSize (snd (timeNow env s)) = maxCacheSize s
     \<and> pendingRequests (snd (timeNow env s)) = pendingRequests s
     \<and> client (snd (timeNow env s)) = client s
     \<and> nameserverIdx (snd (timeNow env s)) = nameserverIdx s
     \<and> domainCache (snd (timeNow env s)) = domainCache s
     \<and> netlog (snd (timeNow env s)) = netlog s
     \<and> out (snd (timeNow env s)) = out s
     \<and> nextChan (snd (timeNow env s)) = nextChan s"
  by (simp add: timeNow_def)

lemma getCachedResponse_frame [simp]:
  "config (snd (getCachedResponse env s r c)) = config s
     \<and> blocked (snd (getCachedResponse env s r c)) = blocked s
     \<and> overwrites (snd (getCachedResponse env s r c)) = overwrites s
     \<and> nameservers (snd (getCachedResponse env s r c)) = nameservers s
     \<and> cache (snd (getCachedResponse env s r c)) = cache s
     \<and> maxCacheSize (snd (getCachedResponse env s r c)) = maxCacheSize s
     \<and> pendingRequests (snd (getCachedResponse env s r c)) = pendingRequests s
     \<and> client (snd (getCachedResponse env s r c)) = client s
     \<and> nameserverIdx (snd (getCachedResponse env s r c)) = nameserverIdx s
     \<and> netlog (snd (getCachedResponse env s r c)) = netlog s
     \<and> out (snd (getCachedResponse env s r c)) = out s
     \<and> nextChan (snd (getCachedResponse env s r c)) = nextChan s"
  by (simp add: getCachedResponse_def split_beta Let_def split: option.splits)

lemma evictOldestCacheEntry_frame [simp]:
  "config (evictOldestCacheEntry env s) = config s
     \<and> blocked (evictOldestCacheEntry env s) = blocked s
     \<and> overwrites (evictOldestCacheEntry env s) = overwrites s
     \<and> nameservers (evictOldestCacheEntry env s) = nameservers s
     \<and> maxCacheSize (evictOldestCacheEntry env s) = maxCacheSize s
     \<and> pendingRequests (evictOldestCacheEntry env s) = pendingRequests s
     \<and> client (evictOldestCacheEntry env s) = client s
     \<and> nameserverIdx (evictOldestCacheEntry env s) = nameserverIdx s
     \<and> domainCache (evictOldestCacheEntry env s) = domainCache s
     \<and> netlog (evictOldestCacheEntry env s) = netlog s
     \<and> out (evictOldestCacheEntry env s) = out s
     \<and> nextChan (evictOldestCacheEntry env s) = nextChan s"
  by (simp add: evictOldestCacheEntry_def split_beta split: option.splits)

lemma cacheNegativeResponse_frame [simp]:
  "config (cacheNegativeResponse env s r resp key) = config s
     \<and> blocked (cacheNegativeResponse env s r resp key) = blocked s
     \<and> overwrites (cacheNegativeResponse env s r resp key) = overwrites s
     \<and> nameservers (cacheNegativeResponse env s r resp key) = nameservers s
     \<and> maxCacheSize (cacheNegativeResponse env s r resp key) = maxCacheSize s
     \<and> pendingRequests (cacheNegativeResponse env s r resp key) = pendingRequests s
     \<and> client (cacheNegativeResponse env s r resp key) = client s
     \<and> nameserverIdx (cacheNegativeResponse env s r resp key) = nameserverIdx s
     \<and> netlog (cacheNegativeResponse env s r resp key) = netlog s
     \<and> out (cacheNegativeResponse env s r resp key) = out s
     \<and> nextChan (cacheNegativeResponse env s r resp key) = nextChan s"
  by (simp add: cacheNegativeResponse_def split_beta Let_def)

lemma cachePositiveResponse_frame:
  "cachePositiveResponse env s r resp key = Inr s' \<Longrightarrow>
       config s' = config s
     \<and> blocked s' = blocked s
     \<and> overwrites s' = overwrites s
     \<and> nameservers s' = nameservers s
     \<and> maxCacheSize s' = maxCacheSize s
     \<and> pendingRequests s' = pendingRequests s
     \<and> client s' = client s
     \<and> nameserverIdx s' = nameserverIdx s
     \<and> netlog s' = netlog s
     \<and> out s' = out s
     \<and> nextChan s' = nextChan s"
  by (auto simp: cachePositiveResponse_def split_beta Let_def split: if_splits list.splits)

lemma setCachedResponse_frame:
  "setCachedResponse env s r resp = Inr s' \<Longrightarrow>
       config s' = config s
     \<and> blocked s' = blocked s
     \<and> overwrites s' = overwrites s
     \<and> nameservers s' = nameservers s
     \<and> maxCacheSize s' = maxCacheSize s
     \<and> pendingRequests s' = pendingRequests s
     \<and> client s' = client s
     \<and> nameserverIdx s' = nameserverIdx s
     \<and> netlog s' = netlog s
     \<and> out s' = out s
     \<and> nextChan s' = nextChan s"
  by (auto simp: setCachedResponse_def split_beta Let_def split: if_splits list.splits option.splits dest!: cachePositiveResponse_frame)

text \<open>
  Claim C2 does not hold of the code.  For every message whose question section is empty,
  whatever the environment, the server state and the client, \<^verbatim>\<open>handleDNSRequest\<close> does
  not drop the query: the cache lookup finds nothing for the empty key, and the handler then
  reads \<^verbatim>\<open>r.Question[0]\<close>, which is an index out of range.
\<close>

theorem handleDNSRequest_empty_question:
  "handleDNSRequest env s clientIP (r\<lparr>Question := []\<rparr>) = Inl IndexOutOfRange"
  by (simp add: handleDNSRequest_def getCachedResponse_def getCacheKey_def)

lemma word_pos_uint: "(0 < (w :: 32 word)) = (1 \<le> uint w)"
  by (simp add: word_less_def) (metis uint_ge_0 linorder_not_less order_le_less zless_imp_add1_zle zero_less_one add_0 uint_0_iff order.strict_iff_not)

lemma soaScan_firstSOA:
  "soaScan cfg ns =
     (case firstSOAMinimum ns of
        None \<Rightarrow> cfg
      | Some m \<Rightarrow> if 0 < m \<and> uint m < cfg then uint m else cfg)"
  by (induction ns) (auto split: RData.splits)

lemma ttlScan_bounds: "1 \<le> t \<Longrightarrow> 1 \<le> ttlScan t ns \<and> ttlScan t ns \<le> t"
proof (induction ns arbitrary: t)
  case Nil
  then show ?case by simp
next
  case (Cons rr rest)
  show ?case
  proof (cases "0 < Ttl rr \<and> uint (Ttl rr) < t")
    case True
    then have "1 \<le> uint (Ttl rr)" by (simp add: word_pos_uint)
    from Cons.IH[OF this] True show ?thesis by auto
  next
    case False
    with Cons.IH[OF Cons.prems] show ?thesis by auto
  qed
qed

lemma Min_insert_insert:
  "finite A \<Longrightarrow> Min (insert a (insert b A)) = Min (insert (min a b) A)"
  for a :: int
  by (cases "A = {}") (simp_all add: min.assoc)

lemma ttlScan_Min:
  "ttlScan t ns = Min (insert t {uint (Ttl rr) | rr. rr \<in> set ns \<and> 0 < Ttl rr})"
proof (induction ns arbitrary: t)
  case Nil
  then show ?case by simp
next
  case (Cons rr rest)
  let ?S = "{uint (Ttl x) | x. x \<in> set rest \<and> 0 < Ttl x}"
  have fin: "finite ?S" by simp
  show ?case
  proof (cases "0 < Ttl rr")
    case True
    have eq: "{uint (Ttl x) | x. x \<in> set (rr # rest) \<and> 0 < Ttl x} = insert (uint (Ttl rr)) ?S"
      using True by auto
    have "ttlScan t (rr # rest) = ttlScan (min t (uint (Ttl rr))) rest"
      using True by (simp add: min_def)
    also have "\<dots> = Min (insert (min t (uint (Ttl rr))) ?S)"
      by (rule Cons.IH)
    also have "\<dots> = Min (insert t (insert (uint (Ttl rr)) ?S))"
      using fin by (simp only: Min_insert_insert)
    finally show ?thesis using eq by simp
  next
    case False
    have eq: "{uint (Ttl x) | x. x \<in> set (rr # rest) \<and> 0 < Ttl x} = ?S"
      using False by auto
    show ?thesis using Cons.IH False eq by simp
  qed
qed

lemma negativeTTL_bounds:
  assumes "0 < cfg"
  shows "1 \<le> negativeTTL cfg ns \<and> negativeTTL cfg ns \<le> cfg"
proof -
  have c: "1 \<le> cfg" using assms by simp
  have s: "1 \<le> soaScan cfg ns \<and> soaScan cfg ns \<le> cfg"
    using c by (auto simp: soaScan_firstSOA word_pos_uint split: option.splits)
  show ?thesis
    using s ttlScan_bounds[OF c, of ns] by (auto simp: negativeTTL_def Let_def)
qed

lemma findOldest_acc:
  "findOldest xs (Some (k0, t0)) = Some (k, t) \<Longrightarrow>
     t \<le> t0 \<and> (\<forall>(k', e') \<in> set xs. t \<le> ExpiresAt e') \<and>
     ((k, t) = (k0, t0) \<or> (\<exists>e. (k, e) \<in> set xs \<and> ExpiresAt e = t))"
proof (induction xs arbitrary: k0 t0)
  case Nil
  then show ?case by simp
next
  case (Cons x xs)
  obtain key entry where x: "x = (key, entry)" by (cases x)
  show ?case
  proof (cases "ExpiresAt entry < t0")
    case True
    with Cons.prems x have "findOldest xs (Some (key, ExpiresAt entry)) = Some (k, t)" by simp
    from Cons.IH[OF this] True x show ?thesis by auto
  next
    case False
    with Cons.prems x have "findOldest xs (Some (k0, t0)) = Some (k, t)" by simp
    from Cons.IH[OF this] False x show ?thesis by auto
  qed
qed

lemma findOldest_acc_Some: "\<exists>k t. findOldest xs (Some a) = Some (k, t)"
  by (induction xs arbitrary: a) (auto split: prod.splits)

lemma findOldest_None_iff: "findOldest xs None = None \<longleftrightarrow> xs = []"
proof (cases xs)
  case Nil
  then show ?thesis by simp
next
  case (Cons x rest)
  obtain key entry where "x = (key, entry)" by (cases x)
  with Cons findOldest_acc_Some[of rest "(key, ExpiresAt entry)"] show ?thesis by auto
qed

lemma findOldest_min:
  assumes "findOldest xs None = Some (k, t)"
  shows "(\<exists>e. (k, e) \<in> set xs \<and> ExpiresAt e = t) \<and> (\<forall>(k', e') \<in> set xs. t \<le> ExpiresAt e')"
proof (cases xs)
  case Nil
  with assms show ?thesis by simp
next
  case (Cons x rest)
  obtain key entry where x: "x = (key, entry)" by (cases x)
  with Cons assms have "findOldest rest (Some (key, ExpiresAt entry)) = Some (k, t)" by simp
  from findOldest_acc[OF this] Cons x show ?thesis by auto
qed

lemma evictOldestCacheEntry_cache:
  "cache (evictOldestCacheEntry env s) =
     (case findOldest (cache s) None of
        None \<Rightarrow> cache s
      | Some (k, t) \<Rightarrow> AList.delete k (cache s))"
  by (simp add: evictOldestCacheEntry_def timeNow_def split: option.splits)

lemma length_delete_distinct:
  "distinct (map fst al) \<Longrightarrow> (k, e) \<in> set al \<Longrightarrow> Suc (length (AList.delete k al)) = length al"
proof (induction al)
  case Nil
  then show ?case by simp
next
  case (Cons x al)
  show ?case
  proof (cases "fst x = k")
    case True
    with Cons.prems have "k \<notin> fst ` set al" by auto
    then have "AList.delete k al = al" by (simp add: delete_id)
    with True show ?thesis by (cases x) simp
  next
    case False
    with Cons show ?thesis by (cases x) auto
  qed
qed

text \<open>eviction removes one entry of least expiry\<close>

lemma evict_spec:
  assumes "cache s \<noteq> []" and "distinct (map fst (cache s))"
  shows "\<exists>k e. (k, e) \<in> set (cache s)
            \<and> (\<forall>(k', e') \<in> set (cache s). ExpiresAt e \<le> ExpiresAt e')
            \<and> cache (evictOldestCacheEntry env s) = AList.delete k (cache s)
            \<and> Suc (length (cache (evictOldestCacheEntry env s))) = length (cache s)"
proof -
  from assms(1) obtain k t where f: "findOldest (cache s) None = Some (k, t)"
    using findOldest_None_iff[of "cache s"] by (cases "findOldest (cache s) None") auto
  from findOldest_min[OF f] obtain e where
    e: "(k, e) \<in> set (cache s)" "ExpiresAt e = t" "\<forall>(k', e') \<in> set (cache s). t \<le> ExpiresAt e'"
    by blast
  have c: "cache (evictOldestCacheEntry env s) = AList.delete k (cache s)"
    using f by (simp add: evictOldestCacheEntry_cache)
  show ?thesis
    using e c length_delete_distinct[OF assms(2) e(1)] by auto
qed

lemma cacheNegativeResponse_store:
  "cache (cacheNegativeResponse env s r resp key) =
     (if NegativeCacheTTL (config s) \<le> 0 \<or> negativeTTL (NegativeCacheTTL (config s)) (Ns resp) < 1
      then cache s
      else cache (cacheStore env s key resp (negativeTTL (NegativeCacheTTL (config s)) (Ns resp))))"
  by (simp add: cacheNegativeResponse_def cacheStore_def Let_def split_beta)

lemma cachePositiveResponse_store:
  "cachePositiveResponse env s r resp key = Inr s' \<Longrightarrow>
   cache s' =
     (if CacheTTL (config s) \<le> 0 \<or> Rcode resp \<noteq> RcodeSuccess \<or> length (Answer resp) = 0
         \<or> positiveTTL (CacheTTL (config s)) (Answer resp) < 1
      then cache s
      else cache (cacheStore env s key resp (positiveTTL (CacheTTL (config s)) (Answer resp))))"
  by (auto simp: cachePositiveResponse_def cacheStore_def Let_def split_beta
           split: if_splits list.splits)

lemma cacheStore_lookup:
  "\<exists>n. map_of (cache (cacheStore env s key resp ttl)) key
         = Some \<lparr>Message = resp, ExpiresAt = clock env n + ttlDuration ttl\<rparr>"
  by (auto simp: cacheStore_def Let_def split_beta timeNow_def update_conv')

lemma distinct_evict:
  "distinct (map fst (cache s)) \<Longrightarrow> distinct (map fst (cache (evictOldestCacheEntry env s)))"
  by (simp add: evictOldestCacheEntry_cache distinct_delete split: option.splits prod.splits)

lemma cacheStore_distinct:
  "distinct (map fst (cache s)) \<Longrightarrow> distinct (map fst (cache (cacheStore env s key resp ttl)))"
  by (simp add: cacheStore_def Let_def split_beta timeNow_def distinct_update distinct_evict)

lemma length_update_le: "length (AList.update k v al) \<le> Suc (length al)"
  by (induction al) auto

lemma cacheStore_evicts:
  assumes "0 < maxCacheSize s" and "maxCacheSize s \<le> int (length (cache s))"
      and "distinct (map fst (cache s))"
  shows "\<exists>k e. (k, e) \<in> set (cache s)
            \<and> (\<forall>(k', e') \<in> set (cache s). ExpiresAt e \<le> ExpiresAt e')
            \<and> Suc (length (AList.delete k (cache s))) = length (cache s)
            \<and> (\<exists>n. cache (cacheStore env s key resp ttl)
                   = AList.update key \<lparr>Message = resp, ExpiresAt = clock env n + ttlDuration ttl\<rparr>
                       (AList.delete k (cache s)))"
proof -
  from assms(1,2) have ne: "cache s \<noteq> []" by auto
  from evict_spec[OF ne assms(3), of env] obtain k e where
    ke: "(k, e) \<in> set (cache s)" "\<forall>(k', e') \<in> set (cache s). ExpiresAt e \<le> ExpiresAt e'"
        "cache (evictOldestCacheEntry env s) = AList.delete k (cache s)"
        "Suc (length (cache (evictOldestCacheEntry env s))) = length (cache s)"
    by blast
  have "cache (cacheStore env s key resp ttl)
          = AList.update key
              \<lparr>Message = resp,
               ExpiresAt = clock env (clockReads (evictOldestCacheEntry env s)) + ttlDuration ttl\<rparr>
              (AList.delete k (cache s))"
    using assms(1,2) ke(3) by (simp add: cacheStore_def Let_def split_beta timeNow_def)
  with ke show ?thesis by auto
qed

lemma cacheStore_bounded:
  assumes "0 < maxCacheSize s" and "int (length (cache s)) \<le> maxCacheSize s"
      and "distinct (map fst (cache s))"
  shows "int (length (cache (cacheStore env s key resp ttl))) \<le> maxCacheSize s"
proof (cases "maxCacheSize s \<le> int (length (cache s))")
  case True
  from cacheStore_evicts[OF assms(1) True assms(3), of env key resp ttl] obtain k n where
    k: "Suc (length (AList.delete k (cache s))) = length (cache s)"
       "cache (cacheStore env s key resp ttl)
          = AList.update key \<lparr>Message = resp, ExpiresAt = clock env n + ttlDuration ttl\<rparr>
              (AList.delete k (cache s))"
    by blast
  have "length (cache (cacheStore env s key resp ttl)) \<le> Suc (length (AList.delete k (cache s)))"
    unfolding k(2) by (rule length_update_le)
  with k(1) assms(2) show ?thesis by simp
next
  case False
  then have "cache (cacheStore env s key resp ttl)
      = AList.update key \<lparr>Message = resp, ExpiresAt = clock env (clockReads s) + ttlDuration ttl\<rparr>
          (cache s)"
    by (simp add: cacheStore_def Let_def split_beta timeNow_def)
  then have "length (cache (cacheStore env s key resp ttl)) \<le> Suc (length (cache s))"
    by (simp add: length_update_le)
  with False show ?thesis by simp
qed

lemma setCachedResponse_store:
  assumes "setCachedResponse env s r (Some resp) = Inr s'"
  shows "cache s' = cache s \<or>
         (\<exists>s0 ttl. cache s0 = cache s \<and> maxCacheSize s0 = maxCacheSize s \<and> 1 \<le> ttl
             \<and> fst (getCacheKey env s r) \<noteq> []
             \<and> cache s' = cache (cacheStore env s0 (fst (getCacheKey env s r)) resp ttl)
             \<and> (if isNegativeResponse (Some resp)
                then 0 < NegativeCacheTTL (config s)
                   \<and> ttl = negativeTTL (NegativeCacheTTL (config s)) (Ns resp)
                else 0 < CacheTTL (config s)
                   \<and> ttl = positiveTTL (CacheTTL (config s)) (Answer resp)))"
proof -
  define key where "key = fst (getCacheKey env s r)"
  define s1 where "s1 = snd (getCacheKey env s r)"
  define s2 where "s2 = snd (validateResponse env s1 (Some r) (Some resp))"
  have fr: "cache s2 = cache s" "maxCacheSize s2 = maxCacheSize s" "config s2 = config s"
    by (simp_all add: s2_def s1_def)
  show ?thesis
  proof (cases "key \<noteq> [] \<and> fst (validateResponse env s1 (Some r) (Some resp))")
    case False
    with assms have "cache s' = cache s"
      by (auto simp: setCachedResponse_def split_beta Let_def key_def s1_def
               split: if_splits list.splits)
    then show ?thesis by simp
  next
    case True
    show ?thesis
    proof (cases "isNegativeResponse (Some resp)")
      case neg: True
      with True assms have "s' = cacheNegativeResponse env s2 r resp key"
        by (simp add: setCachedResponse_def split_beta Let_def key_def s1_def s2_def)
      then have "cache s' = cache s \<or>
          (1 \<le> negativeTTL (NegativeCacheTTL (config s)) (Ns resp) \<and> 0 < NegativeCacheTTL (config s)
           \<and> cache s' = cache (cacheStore env s2 key resp
                                 (negativeTTL (NegativeCacheTTL (config s)) (Ns resp))))"
        by (auto simp: cacheNegativeResponse_store fr)
      with neg True fr show ?thesis unfolding key_def by auto
    next
      case pos: False
      with True assms have "cachePositiveResponse env s2 r resp key = Inr s'"
        by (simp add: setCachedResponse_def split_beta Let_def key_def s1_def s2_def)
      from cachePositiveResponse_store[OF this] have "cache s' = cache s \<or>
          (1 \<le> positiveTTL (CacheTTL (config s)) (Answer resp) \<and> 0 < CacheTTL (config s)
           \<and> cache s' = cache (cacheStore env s2 key resp
                                 (positiveTTL (CacheTTL (config s)) (Answer resp))))"
        by (auto simp: fr split: if_splits)
      with pos True fr show ?thesis unfolding key_def by auto
    qed
  qed
qed

lemma ttlDuration_seconds:
  "0 \<le> t \<Longrightarrow> t \<le> 9223372036 \<Longrightarrow> ttlDuration t = t * 1000000000"
proof -
  assume a: "0 \<le> t" "t \<le> 9223372036"
  have e1: "(word_of_int t :: 64 word) * 1000000000 = word_of_int (t * 1000000000)" by simp
  have "sint (word_of_int (t * 1000000000) :: 64 word)
          = signed_take_bit (LENGTH(64) - 1) (t * 1000000000)"
    by (rule sint_sbintrunc')
  also have "\<dots> = t * 1000000000"
    using a by (intro signed_take_bit_int_eq_self) auto
  finally have e2: "sint (word_of_int (t * 1000000000) :: 64 word) = t * 1000000000" .
  show ?thesis unfolding ttlDuration_def by (simp only: e1 e2)
qed

text \<open>
  Claim C4, as amended.  Let \<^verbatim>\<open>setCachedResponse\<close> return normally for a negative response
  whose TTL is computed from the configured \<^verbatim>\<open>NegativeCacheTTL\<close> and the Authority section.
  \<^item> Nothing is cached when the configured value is not positive or the computed TTL is
    below 1 second.
  \<^item> When the configured value is positive, the computed TTL lies between 1 and the
    configured value.
  \<^item> When the first SOA of the Authority section has MINIMUM \<open>m\<close> with
    \<open>0 < m\<close> below the configured value, the computed TTL is \<open>m\<close>; whenever \<open>0 < m\<close> and
    the configured value is positive, the computed TTL is at most the smaller of the
    configured value and \<open>m\<close>.
  \<^item> When the Authority section holds no SOA, the computed TTL is the least of the configured
    value and the non-zero TTLs of the Authority records.
  \<^item> When the cache changes, it holds the response under the key of the query, expiring the
    computed TTL after a reading of the clock; for a configured value of at most 9223372036
    seconds that duration is the TTL times \<open>10\<^sup>9\<close> nanoseconds.
\<close>

theorem negative_ttl_amended:
  assumes neg: "isNegativeResponse (Some resp)"
      and put: "setCachedResponse env s r (Some resp) = Inr s'"
  shows "(NegativeCacheTTL (config s) \<le> 0 \<longrightarrow> cache s' = cache s)
       \<and> (negativeTTL (NegativeCacheTTL (config s)) (Ns resp) < 1 \<longrightarrow> cache s' = cache s)
       \<and> (0 < NegativeCacheTTL (config s) \<longrightarrow>
            1 \<le> negativeTTL (NegativeCacheTTL (config s)) (Ns resp)
          \<and> negativeTTL (NegativeCacheTTL (config s)) (Ns resp) \<le> NegativeCacheTTL (config s))
       \<and> (\<forall>m. firstSOAMinimum (Ns resp) = Some m \<and> 0 < m \<and> uint m < NegativeCacheTTL (config s)
              \<longrightarrow> negativeTTL (NegativeCacheTTL (config s)) (Ns resp) = uint m)
       \<and> (\<forall>m. firstSOAMinimum (Ns resp) = Some m \<and> 0 < m \<and> 0 < NegativeCacheTTL (config s)
              \<longrightarrow> negativeTTL (NegativeCacheTTL (config s)) (Ns resp)
                    \<le> min (NegativeCacheTTL (config s)) (uint m))
       \<and> (firstSOAMinimum (Ns resp) = None \<longrightarrow>
            negativeTTL (NegativeCacheTTL (config s)) (Ns resp)
              = Min (insert (NegativeCacheTTL (config s))
                       {uint (Ttl rr) | rr. rr \<in> set (Ns resp) \<and> 0 < Ttl rr}))
       \<and> (cache s' \<noteq> cache s \<longrightarrow>
            (\<exists>n. map_of (cache s') (fst (getCacheKey env s r))
                   = Some \<lparr>Message = resp,
                           ExpiresAt = clock env n
                             + ttlDuration (negativeTTL (NegativeCacheTTL (config s)) (Ns resp))\<rparr>))
       \<and> (0 < NegativeCacheTTL (config s) \<and> NegativeCacheTTL (config s) \<le> 9223372036 \<longrightarrow>
            ttlDuration (negativeTTL (NegativeCacheTTL (config s)) (Ns resp))
              = negativeTTL (NegativeCacheTTL (config s)) (Ns resp) * 1000000000)"
proof -
  define cfg where "cfg = NegativeCacheTTL (config s)"
  define t where "t = negativeTTL cfg (Ns resp)"
  have st: "cache s' = cache s \<or>
      (0 < cfg \<and> 1 \<le> t \<and>
       (\<exists>s0. cache s' = cache (cacheStore env s0 (fst (getCacheKey env s r)) resp t)))"
    using setCachedResponse_store[OF put] neg unfolding cfg_def t_def by auto
  have c1: "cfg \<le> 0 \<longrightarrow> cache s' = cache s" using st by auto
  have c2: "t < 1 \<longrightarrow> cache s' = cache s" using st by auto
  have c3: "0 < cfg \<longrightarrow> 1 \<le> t \<and> t \<le> cfg"
    unfolding t_def using negativeTTL_bounds by blast
  have c4: "\<forall>m. firstSOAMinimum (Ns resp) = Some m \<and> 0 < m \<and> uint m < cfg \<longrightarrow> t = uint m"
    unfolding t_def by (auto simp: negativeTTL_def Let_def soaScan_firstSOA)
  have c5: "\<forall>m. firstSOAMinimum (Ns resp) = Some m \<and> 0 < m \<and> 0 < cfg \<longrightarrow> t \<le> min cfg (uint m)"
  proof (intro allI impI)
    fix m assume m: "firstSOAMinimum (Ns resp) = Some m \<and> 0 < m \<and> 0 < cfg"
    show "t \<le> min cfg (uint m)"
    proof (cases "uint m < cfg")
      case True
      with m c4 show ?thesis by simp
    next
      case False
      with m c3 show ?thesis by simp
    qed
  qed
  have c6: "firstSOAMinimum (Ns resp) = None \<longrightarrow>
      t = Min (insert cfg {uint (Ttl rr) | rr. rr \<in> set (Ns resp) \<and> 0 < Ttl rr})"
    unfolding t_def by (auto simp: negativeTTL_def Let_def soaScan_firstSOA ttlScan_Min)
  have c7: "cache s' \<noteq> cache s \<longrightarrow>
      (\<exists>n. map_of (cache s') (fst (getCacheKey env s r))
             = Some \<lparr>Message = resp, ExpiresAt = clock env n + ttlDuration t\<rparr>)"
    using st cacheStore_lookup by metis
  have c8: "0 < cfg \<and> cfg \<le> 9223372036 \<longrightarrow> ttlDuration t = t * 1000000000"
    using c3 by (auto intro!: ttlDuration_seconds)
  show ?thesis
    using c1 c2 c3 c4 c5 c6 c7 c8 unfolding cfg_def t_def by blast
qed

theorem negative_ttl_amended_witness:
  "isNegativeResponse (Some (nxResponse 3600 120))
   \<and> firstSOAMinimum (Ns (nxResponse 3600 120)) = Some 120
   \<and> (\<exists>s'. setCachedResponse exEnv exServer exQuery (Some (nxResponse 3600 120)) = Inr s'
          \<and> cache s' \<noteq> cache exServer
          \<and> negativeTTL (NegativeCacheTTL (config exServer)) (Ns (nxResponse 3600 120)) = 120
          \<and> (\<exists>n. map_of (cache s') (fst (getCacheKey exEnv exServer exQuery))
                   = Some \<lparr>Message = nxResponse 3600 120,
                           ExpiresAt = clock exEnv n + 120 * 1000000000\<rparr>))"
proof -
  have neg: "isNegativeResponse (Some (nxResponse 3600 120))" by code_simp
  have soa: "firstSOAMinimum (Ns (nxResponse 3600 120)) = Some 120" by code_simp
  have cfg: "NegativeCacheTTL (config exServer) = 300" by code_simp
  have ev: "case setCachedResponse exEnv exServer exQuery (Some (nxResponse 3600 120)) of
              Inr s' \<Rightarrow> cache s' \<noteq> cache exServer | Inl e \<Rightarrow> False"
    by code_simp
  then obtain s' where
    put: "setCachedResponse exEnv exServer exQuery (Some (nxResponse 3600 120)) = Inr s'"
    and ch: "cache s' \<noteq> cache exServer"
    by (auto split: sum.splits)
  have m: "(0 :: 32 word) < 120 \<and> uint (120 :: 32 word) < 300" by simp
  from negative_ttl_amended[OF neg put] soa cfg ch m
  have t: "negativeTTL 300 (Ns (nxResponse 3600 120)) = 120"
    and e: "\<exists>n. map_of (cache s') (fst (getCacheKey exEnv exServer exQuery))
                  = Some \<lparr>Message = nxResponse 3600 120,
                          ExpiresAt = clock exEnv n
                            + ttlDuration (negativeTTL 300 (Ns (nxResponse 3600 120)))\<rparr>"
    and d: "ttlDuration (negativeTTL 300 (Ns (nxResponse 3600 120)))
              = negativeTTL 300 (Ns (nxResponse 3600 120)) * 1000000000"
    by auto
  show ?thesis using neg soa put ch t e d cfg by auto
qed

text \<open>
  Claim C4 as stated fails.  A response whose only SOA has MINIMUM 0 is stored for the
  configured 300 seconds, which is more than the smaller of 300 and 0.  And with a SOA of
  MINIMUM 600 and a record TTL of 60 the scan of the record TTLs runs although a SOA was found:
  the stored TTL is 60.
\<close>

theorem negative_ttl_counterexample:
  "isNegativeResponse (Some (nxResponse 0 0))
   \<and> firstSOAMinimum (Ns (nxResponse 0 0)) = Some 0
   \<and> (case setCachedResponse exEnv exServer exQuery (Some (nxResponse 0 0)) of
        Inr s' \<Rightarrow> map_of (cache s') ''example.com:1:1''
                   = Some \<lparr>Message = nxResponse 0 0, ExpiresAt = 1000 + 300 * 1000000000\<rparr>
      | Inl e \<Rightarrow> False)
   \<and> \<not> (300 \<le> min (NegativeCacheTTL (config exServer)) (uint (0 :: 32 word)))
   \<and> firstSOAMinimum (Ns (nxResponse 60 600)) = Some 600
   \<and> negativeTTL (NegativeCacheTTL (config exServer)) (Ns (nxResponse 60 600)) = 60"
  by code_simp

text \<open>
  Claim C6.  If \<^verbatim>\<open>setCachedResponse\<close> stores the response \<open>resp\<close> for the query \<open>q\<close>,
  the cache holds \<open>resp\<close> under the key of \<open>q\<close> with some expiry \<open>e\<close>; and a lookup by a
  query \<open>q'\<close> of the same key, at a clock reading not after \<open>e\<close>, returns \<open>resp\<close> with the
  transaction ID, the question section and the RD and CD flags of \<open>q'\<close>, and every other
  field as stored.
\<close>

theorem cache_roundtrip:
  assumes put: "setCachedResponse env s q (Some resp) = Inr s'"
      and stored: "cache s' \<noteq> cache s"
      and key: "fst (getCacheKey env s' q') = fst (getCacheKey env s q)"
  shows "\<exists>e. map_of (cache s') (fst (getCacheKey env s q)) = Some \<lparr>Message = resp, ExpiresAt = e\<rparr>
           \<and> (clock env (clockReads s') \<le> e \<longrightarrow>
                fst (getCachedResponse env s' q' c)
                  = Some (resp\<lparr>Id := Id q', Question := Question q',
                              RecursionDesired := RecursionDesired q',
                              CheckingDisabled := CheckingDisabled q'\<rparr>))"
proof -
  from setCachedResponse_store[OF put] stored obtain s0 ttl where
    k: "fst (getCacheKey env s q) \<noteq> []"
    and c: "cache s' = cache (cacheStore env s0 (fst (getCacheKey env s q)) resp ttl)"
    and en: "0 < NegativeCacheTTL (config s) \<or> 0 < CacheTTL (config s)"
    by (auto split: if_splits)
  from cacheStore_lookup[of env s0 "fst (getCacheKey env s q)" resp ttl] c obtain n where
    e: "map_of (cache s') (fst (getCacheKey env s q))
          = Some \<lparr>Message = resp, ExpiresAt = clock env n + ttlDuration ttl\<rparr>"
    by auto
  have cfg: "config s' = config s" using setCachedResponse_frame[OF put] by simp
  have "fst (getCachedResponse env s' q' c)
          = Some (resp\<lparr>Id := Id q', Question := Question q',
                      RecursionDesired := RecursionDesired q',
                      CheckingDisabled := CheckingDisabled q'\<rparr>)"
    if "clock env (clockReads s') \<le> clock env n + ttlDuration ttl"
    using that en k e key cfg
    by (auto simp: getCachedResponse_def split_beta Let_def timeNow_def)
  with e show ?thesis by blast
qed

theorem cache_roundtrip_witness:
  "setCachedResponse exEnv exServer exQuery (Some posResponse)
     = Inr (projr (setCachedResponse exEnv exServer exQuery (Some posResponse)))
   \<and> cache (projr (setCachedResponse exEnv exServer exQuery (Some posResponse))) \<noteq> cache exServer
   \<and> fst (getCacheKey exEnv (projr (setCachedResponse exEnv exServer exQuery (Some posResponse))) exQuery2)
       = fst (getCacheKey exEnv exServer exQuery)
   \<and> fst (getCachedResponse exEnv
            (projr (setCachedResponse exEnv exServer exQuery (Some posResponse))) exQuery2 None)
       = Some (posResponse\<lparr>Id := Id exQuery2, Question := Question exQuery2,
                 RecursionDesired := RecursionDesired exQuery2,
                 CheckingDisabled := CheckingDisabled exQuery2\<rparr>)"
proof -
  define s' where "s' = projr (setCachedResponse exEnv exServer exQuery (Some posResponse))"
  have "case setCachedResponse exEnv exServer exQuery (Some posResponse) of
          Inr t \<Rightarrow> True | Inl e \<Rightarrow> False"
    by code_simp
  then have put: "setCachedResponse exEnv exServer exQuery (Some posResponse) = Inr s'"
    unfolding s'_def by (simp split: sum.splits)
  have stored: "cache s' \<noteq> cache exServer" unfolding s'_def by code_simp
  have key: "fst (getCacheKey exEnv s' exQuery2) = fst (getCacheKey exEnv exServer exQuery)"
    unfolding s'_def by code_simp
  have e: "map_of (cache s') (fst (getCacheKey exEnv exServer exQuery))
             = Some \<lparr>Message = posResponse, ExpiresAt = 60000001000\<rparr>"
    unfolding s'_def by code_simp
  have t: "clock exEnv (clockReads s') \<le> 60000001000"
    unfolding s'_def by code_simp
  from cache_roundtrip[OF put stored key, of None] e t
  have "fst (getCachedResponse exEnv s' exQuery2 None)
          = Some (posResponse\<lparr>Id := Id exQuery2, Question := Question exQuery2,
                    RecursionDesired := RecursionDesired exQuery2,
                    CheckingDisabled := CheckingDisabled exQuery2\<rparr>)"
    by auto
  with put stored key show ?thesis unfolding s'_def by simp
qed

lemma cleanupExpiredCache_cache:
  "cache (cleanupExpiredCache env s)
     = filter (\<lambda>(key, entry). \<not> clock env (clockReads s) > ExpiresAt entry) (cache s)"
  by (simp add: cleanupExpiredCache_def timeNow_def)

lemma cleanupExpiredCache_maxCacheSize:
  "maxCacheSize (cleanupExpiredCache env s) = maxCacheSize s"
  by (simp add: cleanupExpiredCache_def timeNow_def)

lemma setCachedResponse_None: "setCachedResponse env s q None = Inr s"
  by (simp add: setCachedResponse_def)

text \<open>
  Claim C7.  Let the capacity be positive and the cache hold at most that many entries, under
  distinct keys.  After \<^verbatim>\<open>setCachedResponse\<close> the capacity is the same and the cache again
  holds at most that many entries under distinct keys.  When the cache was full and the call
  stored an entry, the new cache is the old one with one entry of least expiry removed and
  the new entry put under the key of the query.  A lookup leaves the cache and the capacity
  as they were, and the sweep of expired entries keeps the bound and the distinct keys.
\<close>

theorem cache_cap_invariant:
  assumes max: "0 < maxCacheSize s"
      and inv: "int (length (cache s)) \<le> maxCacheSize s"
      and dist: "distinct (map fst (cache s))"
      and put: "setCachedResponse env s q resp = Inr s'"
  shows "(maxCacheSize s' = maxCacheSize s \<and> int (length (cache s')) \<le> maxCacheSize s'
            \<and> distinct (map fst (cache s')))
       \<and> (cache s' \<noteq> cache s \<and> maxCacheSize s \<le> int (length (cache s)) \<longrightarrow>
            (\<exists>k e. (k, e) \<in> set (cache s)
                 \<and> (\<forall>(k', e') \<in> set (cache s). ExpiresAt e \<le> ExpiresAt e')
                 \<and> Suc (length (AList.delete k (cache s))) = length (cache s)
                 \<and> (\<exists>new. cache s' = AList.update (fst (getCacheKey env s q)) new
                                         (AList.delete k (cache s)))))
       \<and> (cache (snd (getCachedResponse env s q c)) = cache s
            \<and> maxCacheSize (snd (getCachedResponse env s q c)) = maxCacheSize s)
       \<and> (maxCacheSize (cleanupExpiredCache env s) = maxCacheSize s
            \<and> int (length (cache (cleanupExpiredCache env s))) \<le> maxCacheSize s
            \<and> distinct (map fst (cache (cleanupExpiredCache env s))))"
proof -
  have m: "maxCacheSize s' = maxCacheSize s"
    using setCachedResponse_frame[OF put] by simp
  have store: "cache s' = cache s \<or>
      (\<exists>s0 ttl r. resp = Some r \<and> cache s0 = cache s \<and> maxCacheSize s0 = maxCacheSize s
          \<and> cache s' = cache (cacheStore env s0 (fst (getCacheKey env s q)) r ttl))"
  proof (cases resp)
    case None
    with put show ?thesis by (simp add: setCachedResponse_None)
  next
    case (Some r)
    with setCachedResponse_store[of env s q r s'] put show ?thesis by auto
  qed
  have p1: "int (length (cache s')) \<le> maxCacheSize s' \<and> distinct (map fst (cache s'))"
  proof (cases "cache s' = cache s")
    case True
    with inv dist m show ?thesis by simp
  next
    case False
    with store obtain s0 ttl r where
      s0: "cache s0 = cache s" "maxCacheSize s0 = maxCacheSize s"
          "cache s' = cache (cacheStore env s0 (fst (getCacheKey env s q)) r ttl)"
      by blast
    have "int (length (cache (cacheStore env s0 (fst (getCacheKey env s q)) r ttl))) \<le> maxCacheSize s0"
      using max inv dist s0(1,2) by (intro cacheStore_bounded) simp_all
    moreover have "distinct (map fst (cache (cacheStore env s0 (fst (getCacheKey env s q)) r ttl)))"
      using dist s0(1) by (intro cacheStore_distinct) simp
    ultimately show ?thesis using s0 m by simp
  qed
  have p2: "\<exists>k e. (k, e) \<in> set (cache s)
                 \<and> (\<forall>(k', e') \<in> set (cache s). ExpiresAt e \<le> ExpiresAt e')
                 \<and> Suc (length (AList.delete k (cache s))) = length (cache s)
                 \<and> (\<exists>new. cache s' = AList.update (fst (getCacheKey env s q)) new
                                         (AList.delete k (cache s)))"
    if ch: "cache s' \<noteq> cache s" and full: "maxCacheSize s \<le> int (length (cache s))"
  proof -
    from store ch obtain s0 ttl r where
      s0: "cache s0 = cache s" "maxCacheSize s0 = maxCacheSize s"
          "cache s' = cache (cacheStore env s0 (fst (getCacheKey env s q)) r ttl)"
      by blast
    have "\<exists>k e. (k, e) \<in> set (cache s0)
            \<and> (\<forall>(k', e') \<in> set (cache s0). ExpiresAt e \<le> ExpiresAt e')
            \<and> Suc (length (AList.delete k (cache s0))) = length (cache s0)
            \<and> (\<exists>n. cache (cacheStore env s0 (fst (getCacheKey env s q)) r ttl)
                   = AList.update (fst (getCacheKey env s q))
                       \<lparr>Message = r, ExpiresAt = clock env n + ttlDuration ttl\<rparr>
                       (AList.delete k (cache s0)))"
      using max full dist s0(1,2) by (intro cacheStore_evicts) simp_all
    then show ?thesis unfolding s0(1) s0(3)[symmetric] by blast
  qed
  have p3: "cache (snd (getCachedResponse env s q c)) = cache s
            \<and> maxCacheSize (snd (getCachedResponse env s q c)) = maxCacheSize s"
    by simp
  have "length (cache (cleanupExpiredCache env s)) \<le> length (cache s)"
    by (simp add: cleanupExpiredCache_cache)
  moreover have "distinct (map fst (cache (cleanupExpiredCache env s)))"
    using dist by (simp add: cleanupExpiredCache_cache distinct_map_filter)
  ultimately have p4: "maxCacheSize (cleanupExpiredCache env s) = maxCacheSize s
            \<and> int (length (cache (cleanupExpiredCache env s))) \<le> maxCacheSize s
            \<and> distinct (map fst (cache (cleanupExpiredCache env s)))"
    using inv by (simp add: cleanupExpiredCache_maxCacheSize)
  show ?thesis using m p1 p2 p3 p4 by blast
qed

theorem cache_cap_invariant_witness:
  "0 < maxCacheSize exFullServer
   \<and> int (length (cache exFullServer)) \<le> maxCacheSize exFullServer
   \<and> distinct (map fst (cache exFullServer))
   \<and> setCachedResponse exEnv exFullServer exQuery (Some posResponse)
       = Inr (projr (setCachedResponse exEnv exFullServer exQuery (Some posResponse)))
   \<and> map fst (cache (projr (setCachedResponse exEnv exFullServer exQuery (Some posResponse))))
       = [''new.example:1:1'', ''example.com:1:1'']
   \<and> int (length (cache (projr (setCachedResponse exEnv exFullServer exQuery (Some posResponse)))))
       \<le> maxCacheSize (projr (setCachedResponse exEnv exFullServer exQuery (Some posResponse)))"
proof -
  define s' where "s' = projr (setCachedResponse exEnv exFullServer exQuery (Some posResponse))"
  have h1: "0 < maxCacheSize exFullServer" by code_simp
  have h2: "int (length (cache exFullServer)) \<le> maxCacheSize exFullServer" by code_simp
  have h3: "distinct (map fst (cache exFullServer))" by code_simp
  have "case setCachedResponse exEnv exFullServer exQuery (Some posResponse) of
          Inr t \<Rightarrow> True | Inl e \<Rightarrow> False"
    by code_simp
  then have put: "setCachedResponse exEnv exFullServer exQuery (Some posResponse) = Inr s'"
    unfolding s'_def by (simp split: sum.splits)
  have ks: "map fst (cache s') = [''new.example:1:1'', ''example.com:1:1'']"
    unfolding s'_def by code_simp
  from cache_cap_invariant[OF h1 h2 h3 put, of None]
  have "int (length (cache s')) \<le> maxCacheSize s'" by blast
  with h1 h2 h3 put ks show ?thesis unfolding s'_def by simp
qed

lemma doExchange_frame [simp]:
  "config (snd (doExchange env s c)) = config s
     \<and> blocked (snd (doExchange env s c)) = blocked s
     \<and> overwrites (snd (doExchange env s c)) = overwrites s
     \<and> nameservers (snd (doExchange env s c)) = nameservers s
     \<and> cache (snd (doExchange env s c)) = cache s
     \<and> maxCacheSize (snd (doExchange env s c)) = maxCacheSize s
     \<and> pendingRequests (snd (doExchange env s c)) = pendingRequests s
     \<and> client (snd (doExchange env s c)) = client s
     \<and> nameserverIdx (snd (doExchange env s c)) = nameserverIdx s
     \<and> domainCache (snd (doExchange env s c)) = domainCache s
     \<and> out (snd (doExchange env s c)) = out s
     \<and> clockReads (snd (doExchange env s c)) = clockReads s
     \<and> nextChan (snd (doExchange env s c)) = nextChan s"
  by (simp add: doExchange_def)

lemma forwardToNameserver_frame [simp]:
  "config (snd (forwardToNameserver env s r ns a)) = config s
     \<and> blocked (snd (forwardToNameserver env s r ns a)) = blocked s
     \<and> overwrites (snd (forwardToNameserver env s r ns a)) = overwrites s
     \<and> nameservers (snd (forwardToNameserver env s r ns a)) = nameservers s
     \<and> cache (snd (forwardToNameserver env s r ns a)) = cache s
     \<and> maxCacheSize (snd (forwardToNameserver env s r ns a)) = maxCacheSize s
     \<and> pendingRequests (snd (forwardToNameserver env s r ns a)) = pendingRequests s
     \<and> client (snd (forwardToNameserver env s r ns a)) = client s
     \<and> nameserverIdx (snd (forwardToNameserver env s r ns a)) = nameserverIdx s
     \<and> domainCache (snd (forwardToNameserver env s r ns a)) = domainCache s
     \<and> out (snd (forwardToNameserver env s r ns a)) = out s
     \<and> clockReads (snd (forwardToNameserver env s r ns a)) = clockReads s
     \<and> nextChan (snd (forwardToNameserver env s r ns a)) = nextChan s"
  by (simp add: forwardToNameserver_def forwardDOH_def forwardDOT_def)

lemma handleTruncatedResponse_frame [simp]:
  "config (snd (handleTruncatedResponse env s r a d)) = config s
     \<and> blocked (snd (handleTruncatedResponse env s r a d)) = blocked s
     \<and> overwrites (snd (handleTruncatedResponse env s r a d)) = overwrites s
     \<and> nameservers (snd (handleTruncatedResponse env s r a d)) = nameservers s
     \<and> cache (snd (handleTruncatedResponse env s r a d)) = cache s
     \<and> maxCacheSize (snd (handleTruncatedResponse env s r a d)) = maxCacheSize s
     \<and> pendingRequests (snd (handleTruncatedResponse env s r a d)) = pendingRequests s
     \<and> client (snd (handleTruncatedResponse env s r a d)) = client s
     \<and> nameserverIdx (snd (handleTruncatedResponse env s r a d)) = nameserverIdx s
     \<and> out (snd (handleTruncatedResponse env s r a d)) = out s
     \<and> clockReads (snd (handleTruncatedResponse env s r a d)) = clockReads s
     \<and> nextChan (snd (handleTruncatedResponse env s r a d)) = nextChan s"
  by (simp add: handleTruncatedResponse_def split_beta split: Exch.splits option.splits)

lemma tryForwardToNameserver_frame [simp]:
  "config (snd (tryForwardToNameserver env s r ns d)) = config s
     \<and> blocked (snd (tryForwardToNameserver env s r ns d)) = blocked s
     \<and> overwrites (snd (tryForwardToNameserver env s r ns d)) = overwrites s
     \<and> nameservers (snd (tryForwardToNameserver env s r ns d)) = nameservers s
     \<and> cache (snd (tryForwardToNameserver env s r ns d)) = cache s
     \<and> maxCacheSize (snd (tryForwardToNameserver env s r ns d)) = maxCacheSize s
     \<and> pendingRequests (snd (tryForwardToNameserver env s r ns d)) = pendingRequests s
     \<and> client (snd (tryForwardToNameserver env s r ns d)) = client s
     \<and> nameserverIdx (snd (tryForwardToNameserver env s r ns d)) = nameserverIdx s
     \<and> out (snd (tryForwardToNameserver env s r ns d)) = out s
     \<and> clockReads (snd (tryForwardToNameserver env s r ns d)) = clockReads s
     \<and> nextChan (snd (tryForwardToNameserver env s r ns d)) = nextChan s"
  by (simp add: tryForwardToNameserver_def split_beta Let_def split: Exch.splits option.splits)

lemma tryNameservers_frame [simp]:
  "config (snd (tryNameservers env s r d st i n)) = config s
     \<and> blocked (snd (tryNameservers env s r d st i n)) = blocked s
     \<and> overwrites (snd (tryNameservers env s r d st i n)) = overwrites s
     \<and> nameservers (snd (tryNameservers env s r d st i n)) = nameservers s
     \<and> cache (snd (tryNameservers env s r d st i n)) = cache s
     \<and> maxCacheSize (snd (tryNameservers env s r d st i n)) = maxCacheSize s
     \<and> pendingRequests (snd (tryNameservers env s r d st i n)) = pendingRequests s
     \<and> client (snd (tryNameservers env s r d st i n)) = client s
     \<and> nameserverIdx (snd (tryNameservers env s r d st i n)) = nameserverIdx s
     \<and> out (snd (tryNameservers env s r d st i n)) = out s
     \<and> clockReads (snd (tryNameservers env s r d st i n)) = clockReads s
     \<and> nextChan (snd (tryNameservers env s r d st i n)) = nextChan s"
  by (induction n arbitrary: s i) (simp_all add: split_beta Let_def split: option.splits)

lemma forwardDirectInternal_frame [simp]:
  "config (snd (forwardDirectInternal env s r d)) = config s
     \<and> blocked (snd (forwardDirectInternal env s r d)) = blocked s
     \<and> overwrites (snd (forwardDirectInternal env s r d)) = overwrites s
     \<and> nameservers (snd (forwardDirectInternal env s r d)) = nameservers s
     \<and> cache (snd (forwardDirectInternal env s r d)) = cache s
     \<and> maxCacheSize (snd (forwardDirectInternal env s r d)) = maxCacheSize s
     \<and> pendingRequests (snd (forwardDirectInternal env s r d)) = pendingRequests s
     \<and> client (snd (forwardDirectInternal env s r d)) = client s
     \<and> out (snd (forwardDirectInternal env s r d)) = out s
     \<and> clockReads (snd (forwardDirectInternal env s r d)) = clockReads s
     \<and> nextChan (snd (forwardDirectInternal env s r d)) = nextChan s"
  by (simp add: forwardDirectInternal_def Let_def)

lemma forwardDirectInternal_counter:
  "nameservers s \<noteq> [] \<Longrightarrow>
   nameserverIdx (snd (forwardDirectInternal env s r d)) = nameserverIdx s + 1"
proof -
  have "nameserverIdx (snd (tryNameservers env s0 r d st i n)) = nameserverIdx s0" for s0 st i n
    by (induction n arbitrary: s0 i) (simp_all add: split_beta Let_def split: option.splits)
  then show "nameservers s \<noteq> [] \<Longrightarrow> ?thesis"
    by (simp add: forwardDirectInternal_def Let_def)
qed

lemma tryNameservers_tryInOrder:
  "nameservers s = nss \<Longrightarrow>
   tryNameservers env s r d start i n
     = tryInOrder env s r d (map (\<lambda>j. nss ! ((start + j) mod length nss)) [i..<i + n])"
proof (induction n arbitrary: s i)
  case 0
  then show ?case by simp
next
  case (Suc n)
  have u: "[i..<i + Suc n] = i # [Suc i..<Suc i + n]" by (simp add: upt_conv_Cons)
  have n1: "nameservers (snd (tryForwardToNameserver env s r ns d)) = nss" for ns
    using Suc.prems by simp
  show ?case
    unfolding u using Suc.prems Suc.IH[OF n1]
    by (simp add: split_beta Let_def split: option.splits prod.splits)
qed

lemma rotate_as_map:
  "rotate m xs = map (\<lambda>j. xs ! ((m + j) mod length xs)) [0..<length xs]"
  by (rule nth_equalityI) (simp_all add: nth_rotate)

lemma forwardDirectInternal_rotate:
  "nameservers s \<noteq> [] \<Longrightarrow>
   forwardDirectInternal env s r d
     = tryInOrder env (s\<lparr>nameserverIdx := nameserverIdx s + 1\<rparr>) r d
         (rotate (startIndex s) (nameservers s))"
  by (simp add: forwardDirectInternal_def Let_def rotate_as_map
        tryNameservers_tryInOrder[where nss = "nameservers s"])

lemma startIndex_mod:
  assumes "length (nameservers s) < 2 ^ 64"
  shows "startIndex s = unat (nameserverIdx s) mod length (nameservers s)"
proof -
  have "unat (word_of_nat (length (nameservers s)) :: 64 word) = length (nameservers s)"
    using assms by (simp add: unat_of_nat)
  then show ?thesis by (simp add: startIndex_def Let_def unat_mod)
qed

lemma forwardDirectInternal_nameservers:
  "nameservers (snd (forwardDirectInternal env s r d)) = nameservers s"
  by simp

lemma map_upt_Suc_shift: "map f [0..<Suc k] = f 0 # map (\<lambda>j. f (Suc j)) [0..<k]"
proof -
  have "[0..<Suc k] = 0 # map Suc [0..<k]" by (simp add: upt_conv_Cons map_Suc_upt)
  then show ?thesis by (simp add: comp_def del: upt_Suc)
qed

lemma forwardStarts_map:
  assumes "nameservers s \<noteq> []" and "length (nameservers s) < 2 ^ 64"
      and "unat (nameserverIdx s) + length reqs \<le> 2 ^ 64"
  shows "forwardStarts env s reqs
           = map (\<lambda>j. (unat (nameserverIdx s) + j) mod length (nameservers s)) [0..<length reqs]"
  using assms
proof (induction reqs arbitrary: s)
  case Nil
  then show ?case by simp
next
  case (Cons rq rest)
  obtain r d where rq: "rq = (r, d)" by (cases rq)
  define s1 where "s1 = snd (forwardDirectInternal env s r d)"
  have ns1: "nameservers s1 = nameservers s" by (simp add: s1_def)
  have c1: "nameserverIdx s1 = nameserverIdx s + 1"
    using Cons.prems(1) by (simp add: s1_def forwardDirectInternal_counter)
  have hd: "startIndex s = unat (nameserverIdx s) mod length (nameservers s)"
    using Cons.prems(2) by (rule startIndex_mod)
  show ?case
  proof (cases rest)
    case Nil
    with rq hd show ?thesis by simp
  next
    case (Cons x xs)
    with Cons.prems(3) have lt: "unat (nameserverIdx s) + 1 < 2 ^ 64" by simp
    then have "unat (nameserverIdx s) + unat (1 :: 64 word) < 2 ^ LENGTH(64)" by simp
    then have u: "unat (nameserverIdx s + 1) = unat (nameserverIdx s) + 1"
      by (simp only: unat_add_lem[THEN iffD1]) simp
    have b: "unat (nameserverIdx s1) + length rest \<le> 2 ^ 64"
      using Cons.prems(3) c1 u by simp
    have "forwardStarts env s1 rest
            = map (\<lambda>j. (unat (nameserverIdx s1) + j) mod length (nameservers s1)) [0..<length rest]"
      using Cons.prems(1,2) ns1 b by (intro Cons.IH) simp_all
    then have "forwardStarts env s1 rest
            = map (\<lambda>j. (unat (nameserverIdx s) + Suc j) mod length (nameservers s)) [0..<length rest]"
      by (simp add: c1 u ns1)
    then show ?thesis
      using rq hd unfolding s1_def by (simp add: map_upt_Suc_shift del: upt_Suc)
  qed
qed

lemma count_list_upt: "count_list [0..<n] j = (if j < n then 1 else 0)"
  by (induction n) auto

lemma shift_mod_eq:
  "u = v" if "u \<le> v" "v < N" "(a + u) mod N = (a + v) mod N" for u v :: nat
proof -
  from that(1) have le: "a + u \<le> a + v" by simp
  from mod_eq_dvd_iff_nat[OF le, of N] that(3) have "N dvd (a + v) - (a + u)" by simp
  then have "N dvd v - u" by simp
  moreover have "v - u < N" using that(2) by simp
  ultimately have "v - u = 0" using dvd_imp_le[of N "v - u"] by auto
  with that(1) show ?thesis by simp
qed

lemma shift_inj_on: "inj_on (\<lambda>j. (a + j) mod N) {0..<N}" for a N :: nat
proof (rule inj_onI)
  fix x y assume x: "x \<in> {0..<N}" and y: "y \<in> {0..<N}"
    and e: "(a + x) mod N = (a + y) mod N"
  show "x = y"
  proof (cases "x \<le> y")
    case True
    with shift_mod_eq[of x y N a] y e show ?thesis by simp
  next
    case False
    with shift_mod_eq[of y x N a] x e show ?thesis by simp
  qed
qed

lemma count_period:
  assumes "0 < N" and "i < N"
  shows "count_list (map (\<lambda>j. (a + j) mod N) [0..<N]) i = 1"
proof -
  let ?f = "\<lambda>j. (a + j) mod N"
  have inj: "inj_on ?f {0..<N}" by (rule shift_inj_on)
  have sub: "?f ` {0..<N} \<subseteq> {0..<N}" using assms(1) by auto
  have "card (?f ` {0..<N}) = card {0..<N}" using inj by (rule card_image)
  with sub have "?f ` {0..<N} = {0..<N}" by (simp add: card_subset_eq)
  with assms(2) have "i \<in> ?f ` {0..<N}" by simp
  then obtain j where j: "j \<in> {0..<N}" "?f j = i" by blast
  have "count_list (map ?f [0..<N]) (?f j) = count_list [0..<N] j"
    using inj j(1) by (intro count_list_inj_map) simp_all
  with j show ?thesis by (simp add: count_list_upt)
qed

lemma upt_period_split: "[0..<Suc k * N] = [0..<k * N] @ [k * N..<k * N + N]"
  using upt_add_eq_append[of 0 "k * N" N] by (simp add: add.commute)

lemma upt_period_shift: "[k * N..<k * N + N] = map (\<lambda>j. j + k * N) [0..<N]"
  using map_add_upt[of "k * N" N] by (simp add: add.commute)

lemma map_period_split:
  "map (\<lambda>j. (a + j) mod N) [0..<Suc k * N]
     = map (\<lambda>j. (a + j) mod N) [0..<k * N] @ map (\<lambda>j. ((a + k * N) + j) mod N) [0..<N]"
  unfolding upt_period_split map_append upt_period_shift map_map comp_def
  by (simp add: ac_simps)

lemma count_periods:
  assumes "0 < N" and "i < N"
  shows "count_list (map (\<lambda>j. (a + j) mod N) [0..<k * N]) i = k"
proof (induction k)
  case 0
  then show ?case by simp
next
  case (Suc k)
  show ?case
    unfolding map_period_split count_list_append
    using Suc.IH count_period[OF assms, of "a + k * N"] by simp
qed

lemma doExchange_netlog [simp]:
  "netlog (snd (doExchange env s c)) = netlog s @ [c]"
  by (simp add: doExchange_def)

lemma validateResponse_netlog [simp]:
  "netlog (snd (validateResponse env s r resp)) = netlog s"
  by simp

lemma forwardToNameserver_length [simp]:
  "length (netlog (snd (forwardToNameserver env s r ns a))) = Suc (length (netlog s))"
  by (simp add: forwardToNameserver_def forwardDOH_def forwardDOT_def)

lemma handleTruncatedResponse_length [simp]:
  "length (netlog (snd (handleTruncatedResponse env s r a d))) = Suc (length (netlog s))"
  by (simp add: handleTruncatedResponse_def split_beta split: Exch.splits option.splits)

lemma handleTruncatedResponse_validated:
  "fst (handleTruncatedResponse env s r a d) = Some m \<Longrightarrow>
   \<exists>s0. fst (validateResponse env s0 (Some r) (Some m))"
  by (auto simp: handleTruncatedResponse_def split_beta
           split: Exch.splits option.splits if_splits)

lemma tryForwardToNameserver_attempt:
  "Suc (length (netlog s)) \<le> length (netlog (snd (tryForwardToNameserver env s r ns d)))"
  by (simp add: tryForwardToNameserver_def split_beta Let_def split: Exch.splits option.splits)

lemma tryForwardToNameserver_validated:
  "fst (tryForwardToNameserver env s r ns d) = Some m \<Longrightarrow>
   \<exists>s0. fst (validateResponse env s0 (Some r) (Some m))"
  by (auto simp: tryForwardToNameserver_def split_beta Let_def
           split: Exch.splits option.splits if_splits
           dest: handleTruncatedResponse_validated)

lemma tryInOrder_validated:
  "fst (tryInOrder env s r d nss) = Some m \<Longrightarrow>
   \<exists>s0. fst (validateResponse env s0 (Some r) (Some m))"
proof (induction nss arbitrary: s)
  case Nil
  then show ?case by simp
next
  case (Cons ns nss)
  show ?case
  proof (cases "fst (tryForwardToNameserver env s r ns d)")
    case None
    with Cons.prems have "fst (tryInOrder env (snd (tryForwardToNameserver env s r ns d)) r d nss) = Some m"
      by (simp add: split_beta split: prod.splits option.splits)
    then show ?thesis by (rule Cons.IH)
  next
    case (Some a)
    with Cons.prems have "a = m" by (simp split: prod.splits option.splits)
    with Some show ?thesis by (auto dest: tryForwardToNameserver_validated)
  qed
qed

lemma tryInOrder_attempts:
  "fst (tryInOrder env s r d nss) = None \<Longrightarrow>
   length (netlog s) + length nss \<le> length (netlog (snd (tryInOrder env s r d nss)))"
proof (induction nss arbitrary: s)
  case Nil
  then show ?case by simp
next
  case (Cons ns nss)
  define s1 where "s1 = snd (tryForwardToNameserver env s r ns d)"
  from Cons.prems have n: "fst (tryForwardToNameserver env s r ns d) = None"
    by (auto split: prod.splits option.splits)
  with Cons.prems have r: "fst (tryInOrder env s1 r d nss) = None"
    unfolding s1_def by (simp split: prod.splits option.splits)
  have e: "tryInOrder env s r d (ns # nss) = tryInOrder env s1 r d nss"
    using n unfolding s1_def by (cases "tryForwardToNameserver env s r ns d") auto
  have "Suc (length (netlog s)) \<le> length (netlog s1)"
    unfolding s1_def by (rule tryForwardToNameserver_attempt)
  with Cons.IH[OF r] show ?case unfolding e by simp
qed

text \<open>
  Claim C8, as amended.  With \<open>N\<close> configured endpoints, \<open>1 \<le> N < 2\<^sup>6\<^sup>4\<close>, the
  starting index of a forward
  is the value of the 64-bit counter before its increment, modulo \<open>N\<close>; the forward adds one
  to the counter and tries the endpoints in order from the starting index, wrapping; a
  response it returns has passed validation, and when it returns none it has made at least
  \<open>N\<close> exchanges.  Over \<open>3N\<close> consecutive forwards during which the counter does not wrap
  around \<open>2\<^sup>6\<^sup>4\<close>, every endpoint is the starting index exactly 3 times.
\<close>

theorem round_robin_amended:
  assumes ne: "nameservers s \<noteq> []" and small: "length (nameservers s) < 2 ^ 64"
  shows "startIndex s = unat (nameserverIdx s) mod length (nameservers s)
       \<and> nameserverIdx (snd (forwardDirectInternal env s r d)) = nameserverIdx s + 1
       \<and> forwardDirectInternal env s r d
           = tryInOrder env (s\<lparr>nameserverIdx := nameserverIdx s + 1\<rparr>) r d
               (rotate (startIndex s) (nameservers s))
       \<and> (\<forall>m. fst (forwardDirectInternal env s r d) = Some m \<longrightarrow>
              (\<exists>s0. fst (validateResponse env s0 (Some r) (Some m))))
       \<and> (fst (forwardDirectInternal env s r d) = None \<longrightarrow>
            length (netlog s) + length (nameservers s)
              \<le> length (netlog (snd (forwardDirectInternal env s r d))))
       \<and> (length reqs = 3 * length (nameservers s)
            \<and> unat (nameserverIdx s) + length reqs \<le> 2 ^ 64 \<longrightarrow>
            (\<forall>i < length (nameservers s). count_list (forwardStarts env s reqs) i = 3))"
proof -
  let ?s1 = "s\<lparr>nameserverIdx := nameserverIdx s + 1\<rparr>"
  let ?order = "rotate (startIndex s) (nameservers s)"
  have rot: "forwardDirectInternal env s r d = tryInOrder env ?s1 r d ?order"
    using ne by (rule forwardDirectInternal_rotate)
  have val: "\<forall>m. fst (forwardDirectInternal env s r d) = Some m \<longrightarrow>
              (\<exists>s0. fst (validateResponse env s0 (Some r) (Some m)))"
    unfolding rot by (auto dest: tryInOrder_validated)
  have att: "fst (forwardDirectInternal env s r d) = None \<longrightarrow>
            length (netlog s) + length (nameservers s)
              \<le> length (netlog (snd (forwardDirectInternal env s r d)))"
    unfolding rot using tryInOrder_attempts[of env ?s1 r d ?order] by simp
  have fair: "\<forall>i < length (nameservers s). count_list (forwardStarts env s reqs) i = 3"
    if l: "length reqs = 3 * length (nameservers s)"
    and b: "unat (nameserverIdx s) + length reqs \<le> 2 ^ 64"
  proof (intro allI impI)
    fix i assume i: "i < length (nameservers s)"
    have "forwardStarts env s reqs
        = map (\<lambda>j. (unat (nameserverIdx s) + j) mod length (nameservers s))
            [0..<3 * length (nameservers s)]"
      using forwardStarts_map[OF ne small b, of env] l by simp
    then show "count_list (forwardStarts env s reqs) i = 3"
      using count_periods[of "length (nameservers s)" i "unat (nameserverIdx s)" 3] i ne by simp
  qed
  show ?thesis
    using startIndex_mod[OF small] forwardDirectInternal_counter[OF ne, of env r d] rot val att fair
    by blast
qed

theorem round_robin_amended_witness:
  "nameservers rrServer \<noteq> [] \<and> length (nameservers rrServer) < 2 ^ 64
   \<and> length (replicate 9 (exQuery, ''example.com'')) = 3 * length (nameservers rrServer)
   \<and> unat (nameserverIdx rrServer) + length (replicate 9 (exQuery, ''example.com'')) \<le> 2 ^ 64
   \<and> startIndex rrServer = 0
   \<and> count_list (forwardStarts healthyEnv rrServer (replicate 9 (exQuery, ''example.com''))) 0 = 3
   \<and> count_list (forwardStarts healthyEnv rrServer (replicate 9 (exQuery, ''example.com''))) 1 = 3
   \<and> count_list (forwardStarts healthyEnv rrServer (replicate 9 (exQuery, ''example.com''))) 2 = 3"
proof -
  have n: "nameservers rrServer \<noteq> [] \<and> length (nameservers rrServer) = 3
           \<and> nameserverIdx rrServer = 0"
    by (simp add: rrServer_def exServer_def)
  have ne: "nameservers rrServer \<noteq> []" using n by simp
  have small: "length (nameservers rrServer) < 2 ^ 64" using n by simp
  have l: "length (replicate 9 (exQuery, ''example.com'')) = 3 * length (nameservers rrServer)"
    using n by simp
  have b: "unat (nameserverIdx rrServer) + length (replicate 9 (exQuery, ''example.com'')) \<le> 2 ^ 64"
    using n by simp
  have z: "unat (nameserverIdx rrServer) mod length (nameservers rrServer) = 0"
    using n by simp
  from round_robin_amended[OF ne small, of healthyEnv exQuery "''example.com''"
         "replicate 9 (exQuery, ''example.com'')"] l b z
  have st: "startIndex rrServer = 0"
    and fair: "\<forall>i < length (nameservers rrServer).
         count_list (forwardStarts healthyEnv rrServer (replicate 9 (exQuery, ''example.com''))) i = 3"
    by auto
  from fair n have
    "count_list (forwardStarts healthyEnv rrServer (replicate 9 (exQuery, ''example.com''))) 0 = 3"
    "count_list (forwardStarts healthyEnv rrServer (replicate 9 (exQuery, ''example.com''))) 1 = 3"
    "count_list (forwardStarts healthyEnv rrServer (replicate 9 (exQuery, ''example.com''))) 2 = 3"
    by simp_all
  with st ne small l b show ?thesis by simp
qed

text \<open>
  Claim C8 as stated fails when the counter wraps.  With 3 healthy endpoints and the counter
  at \<open>2\<^sup>6\<^sup>4 - 1\<close>, the starting indices of the next nine forwards are
  0, 0, 1, 2, 0, 1, 2, 0, 1: endpoint 0 starts four times.
\<close>

theorem round_robin_counterexample:
  "length (nameservers wrapServer) = 3
   \<and> fst (forwardDirectInternal healthyEnv wrapServer exQuery ''example.com'') \<noteq> None
   \<and> length (replicate 9 (exQuery, ''example.com'')) = 3 * length (nameservers wrapServer)
   \<and> forwardStarts healthyEnv wrapServer (replicate 9 (exQuery, ''example.com''))
       = [0, 0, 1, 2, 0, 1, 2, 0, 1]
   \<and> count_list (forwardStarts healthyEnv wrapServer (replicate 9 (exQuery, ''example.com''))) 0 = 4"
proof -
  define s1 where "s1 = snd (forwardDirectInternal healthyEnv wrapServer exQuery ''example.com'')"
  have n: "nameservers wrapServer \<noteq> [] \<and> length (nameservers wrapServer) = 3
           \<and> nameserverIdx wrapServer = 18446744073709551615"
    by (simp add: wrapServer_def rrServer_def exServer_def)
  have ok: "fst (forwardDirectInternal healthyEnv wrapServer exQuery ''example.com'') \<noteq> None"
    by code_simp
  have st: "startIndex wrapServer = 0"
    using n by (simp add: startIndex_def)
  have ns1: "nameservers s1 \<noteq> []" "length (nameservers s1) = 3"
    using n by (simp_all add: s1_def)
  have c1: "nameserverIdx s1 = 0"
    using n by (simp add: s1_def forwardDirectInternal_counter)
  have small: "length (nameservers s1) < 2 ^ 64" using ns1 by simp
  have b: "unat (nameserverIdx s1) + length (replicate 8 (exQuery, ''example.com'')) \<le> 2 ^ 64"
    using c1 by simp
  have "forwardStarts healthyEnv s1 (replicate 8 (exQuery, ''example.com''))
          = map (\<lambda>j. (unat (nameserverIdx s1) + j) mod length (nameservers s1))
              [0..<length (replicate 8 (exQuery, ''example.com''))]"
    using ns1(1) small b by (rule forwardStarts_map)
  also have "\<dots> = map (\<lambda>j. j mod 3) [0..<8]" using c1 ns1 by simp
  also have "\<dots> = [0, 1, 2, 0, 1, 2, 0, 1]" by code_simp
  finally have rest: "forwardStarts healthyEnv s1 (replicate 8 (exQuery, ''example.com''))
          = [0, 1, 2, 0, 1, 2, 0, 1]" .
  have r9: "replicate 9 (exQuery, ''example.com'')
              = (exQuery, ''example.com'') # replicate 8 (exQuery, ''example.com'')"
    by (simp add: numeral_eq_Suc)
  have all: "forwardStarts healthyEnv wrapServer (replicate 9 (exQuery, ''example.com''))
          = [0, 0, 1, 2, 0, 1, 2, 0, 1]"
    unfolding r9 using st rest by (simp add: s1_def)
  show ?thesis using n ok all by simp
qed

lemma takeWaiters_frame [simp]:
  "config (snd (takeWaiters s key)) = config s
     \<and> blocked (snd (takeWaiters s key)) = blocked s
     \<and> overwrites (snd (takeWaiters s key)) = overwrites s
     \<and> nameservers (snd (takeWaiters s key)) = nameservers s
     \<and> cache (snd (takeWaiters s key)) = cache s
     \<and> maxCacheSize (snd (takeWaiters s key)) = maxCacheSize s
     \<and> client (snd (takeWaiters s key)) = client s
     \<and> nameserverIdx (snd (takeWaiters s key)) = nameserverIdx s
     \<and> domainCache (snd (takeWaiters s key)) = domainCache s
     \<and> netlog (snd (takeWaiters s key)) = netlog s
     \<and> out (snd (takeWaiters s key)) = out s
     \<and> clockReads (snd (takeWaiters s key)) = clockReads s
     \<and> nextChan (snd (takeWaiters s key)) = nextChan s"
  by (simp add: takeWaiters_def split: option.splits)

lemma deletePending_frame [simp]:
  "config (deletePending s key) = config s
     \<and> blocked (deletePending s key) = blocked s
     \<and> overwrites (deletePending s key) = overwrites s
     \<and> nameservers (deletePending s key) = nameservers s
     \<and> cache (deletePending s key) = cache s
     \<and> maxCacheSize (deletePending s key) = maxCacheSize s
     \<and> client (deletePending s key) = client s
     \<and> nameserverIdx (deletePending s key) = nameserverIdx s
     \<and> domainCache (deletePending s key) = domainCache s
     \<and> netlog (deletePending s key) = netlog s
     \<and> out (deletePending s key) = out s
     \<and> clockReads (deletePending s key) = clockReads s
     \<and> nextChan (deletePending s key) = nextChan s"
  by (simp add: deletePending_def)

lemma normalizeDomainS_dc:
  "domainCache s = domainCache t \<Longrightarrow>
   fst (normalizeDomainS env s x) = fst (normalizeDomainS env t x)
   \<and> domainCache (snd (normalizeDomainS env s x)) = domainCache (snd (normalizeDomainS env t x))"
  by (simp add: normalizeDomainS_def split_beta)

lemma validateResponse_dc:
  assumes "domainCache s = domainCache t"
  shows "fst (validateResponse env s a b) = fst (validateResponse env t a b)
       \<and> domainCache (snd (validateResponse env s a b)) = domainCache (snd (validateResponse env t a b))"
proof (cases "\<exists>rq rs qr qrs qs qss. a = Some rq \<and> b = Some rs \<and> Question rq = qr # qrs \<and> Question rs = qs # qss")
  case False
  then show ?thesis using assms
    by (auto simp: validateResponse_def split: option.splits list.splits)
next
  case True
  then obtain rq rs qr qrs qs qss where
    e: "a = Some rq" "b = Some rs" "Question rq = qr # qrs" "Question rs = qs # qss"
    by blast
  from normalizeDomainS_dc[OF assms, of env "Name qr"] have
    n1: "fst (normalizeDomainS env s (Name qr)) = fst (normalizeDomainS env t (Name qr))"
    and d1: "domainCache (snd (normalizeDomainS env s (Name qr)))
               = domainCache (snd (normalizeDomainS env t (Name qr)))"
    by simp_all
  from normalizeDomainS_dc[OF d1, of env "Name qs"] n1 e show ?thesis
    by (simp add: validateResponse_def split_beta)
qed

lemma validateResponse_question:
  "fst (validateResponse env s (Some r) resp) \<Longrightarrow> Question r \<noteq> []"
  by (auto simp: validateResponse_def split: option.splits list.splits)

lemma setCachedResponse_total:
  "Question r \<noteq> [] \<Longrightarrow> \<exists>s'. setCachedResponse env s r resp = Inr s'"
  by (cases "Question r")
     (auto simp: setCachedResponse_def cachePositiveResponse_def split_beta Let_def
           split: option.splits)

lemma notifyWaiters_out:
  "\<exists>rest. out (notifyWaiters s ws resp r) = out s @ rest"
proof (induction ws arbitrary: s)
  case Nil
  then show ?case by simp
next
  case (Cons w ws)
  show ?case
  proof (cases resp)
    case None
    with Cons.IH[of "s\<lparr>out := out s @ [ChanClose w]\<rparr>"] show ?thesis by auto
  next
    case (Some m)
    with Cons.IH[of "s\<lparr>out := out s @ [ChanSend w (m\<lparr>Id := Id r, Question := Question r\<rparr>)]\<rparr>"]
    show ?thesis by auto
  qed
qed

lemma sendResponse_out:
  "out (sendResponse s r (Some m)) = out s @ [WriteMsg (m\<lparr>Id := Id r, Question := Question r\<rparr>)]"
  by (simp add: sendResponse_def WriteMsgTo_def)

lemma handleFirstRequest_answer:
  assumes q: "Question r \<noteq> []"
      and miss: "fst (getCachedResponse env s0 r None) = None"
      and fwd: "fst (forwardDirectInternal env (snd (getCachedResponse env s0 r None)) r d) = Some m"
  shows "\<exists>s' rest. handleFirstRequest env s0 r d key = Inr s'
            \<and> out s' = out s0 @ WriteMsg (m\<lparr>Id := Id r, Question := Question r\<rparr>) # rest"
proof -
  define s1 where "s1 = snd (getCachedResponse env s0 r None)"
  define s2 where "s2 = snd (forwardDirectInternal env s1 r d)"
  from setCachedResponse_total[OF q, of env s2 "Some m"] obtain s3 where
    s3: "setCachedResponse env s2 r (Some m) = Inr s3" by blast
  define s4 where "s4 = snd (takeWaiters s3 key)"
  define s5 where "s5 = sendResponse s4 r (Some m)"
  define s6 where "s6 = notifyWaiters s5 (fst (takeWaiters s3 key))
                          (Some (m\<lparr>Id := Id r, Question := Question r\<rparr>)) r"
  have h: "handleFirstRequest env s0 r d key = Inr (deletePending s6 key)"
    using miss fwd s3
    by (simp add: handleFirstRequest_def split_beta Let_def s1_def s2_def s4_def s5_def s6_def)
  have o3: "out s3 = out s0"
    using setCachedResponse_frame[OF s3] by (simp add: s2_def s1_def)
  have o5: "out s5 = out s0 @ [WriteMsg (m\<lparr>Id := Id r, Question := Question r\<rparr>)]"
    by (simp add: s5_def sendResponse_out s4_def o3)
  from notifyWaiters_out[of s5 "fst (takeWaiters s3 key)"
         "Some (m\<lparr>Id := Id r, Question := Question r\<rparr>)" r]
  obtain rest where "out s6 = out s5 @ rest" unfolding s6_def by blast
  with o5 h show ?thesis by simp
qed

lemma forwardToNameserver_udp:
  "\<not> isTCPBasedProtocol (Protocol ns) \<Longrightarrow>
   forwardToNameserver env s r ns address = doExchange env s (Exchange (client s) r address)"
  by (simp add: forwardToNameserver_def isTCPBasedProtocol_def)

lemma handleTruncatedResponse_result:
  "fst (handleTruncatedResponse env s r address d)
     = (case exchange env (length (netlog s)) (Exchange tcpClient r address) of
          ExchOk (Some tcpResp) \<Rightarrow>
            if fst (validateResponse env s (Some r) (Some tcpResp)) then Some tcpResp else None
        | _ \<Rightarrow> None)
   \<and> netlog (snd (handleTruncatedResponse env s r address d))
       = netlog s @ [Exchange tcpClient r address]"
proof -
  have v: "fst (validateResponse env (s\<lparr>netlog := l\<rparr>) a b) = fst (validateResponse env s a b)" for l a b
    using validateResponse_dc[of "s\<lparr>netlog := l\<rparr>" s env a b] by simp
  show ?thesis
    by (simp add: handleTruncatedResponse_def tcpClient_def doExchange_def split_beta v
             split: Exch.splits option.splits)
qed

lemma tryForwardToNameserver_truncated:
  assumes proto: "\<not> isTCPBasedProtocol (Protocol ns)"
      and addr: "address = JoinHostPort (Address ns) (showInt (Port ns))"
      and udp: "exchange env (length (netlog s)) (Exchange (client s) r address)
                  = ExchOk (Some udpResp)"
      and tc: "Truncated udpResp"
      and valid: "fst (validateResponse env s (Some r) (Some udpResp))"
  shows "netlog (snd (tryForwardToNameserver env s r ns d))
           = netlog s @ [Exchange (client s) r address, Exchange tcpClient r address]
       \<and> fst (tryForwardToNameserver env s r ns d)
           = (case exchange env (Suc (length (netlog s))) (Exchange tcpClient r address) of
                ExchOk (Some tcpResp) \<Rightarrow>
                  if fst (validateResponse env (snd (validateResponse env s (Some r) (Some udpResp)))
                            (Some r) (Some tcpResp))
                  then Some tcpResp else None
              | _ \<Rightarrow> None)"
proof -
  define s1 where "s1 = s\<lparr>netlog := netlog s @ [Exchange (client s) r address]\<rparr>"
  define s2 where "s2 = snd (validateResponse env s1 (Some r) (Some udpResp))"
  have f: "forwardToNameserver env s r ns address = (ExchOk (Some udpResp), s1)"
    using proto udp by (simp add: forwardToNameserver_udp doExchange_def s1_def)
  have dc1: "domainCache s1 = domainCache s" by (simp add: s1_def)
  have v1: "fst (validateResponse env s1 (Some r) (Some udpResp))"
    using validateResponse_dc[OF dc1] valid by simp
  have dc2: "domainCache s2 = domainCache (snd (validateResponse env s (Some r) (Some udpResp)))"
    unfolding s2_def using validateResponse_dc[OF dc1] by simp
  have n2: "netlog s2 = netlog s @ [Exchange (client s) r address]"
    by (simp add: s2_def s1_def)
  have t: "tryForwardToNameserver env s r ns d = handleTruncatedResponse env s2 r address d"
    using f v1 tc proto addr
    by (simp add: tryForwardToNameserver_def Let_def split_beta s2_def)
  have v2: "fst (validateResponse env s2 (Some r) (Some m))
              = fst (validateResponse env (snd (validateResponse env s (Some r) (Some udpResp)))
                       (Some r) (Some m))" for m
    using validateResponse_dc[OF dc2] by simp
  show ?thesis
    unfolding t using handleTruncatedResponse_result[of env s2 r address d]
    by (simp add: n2 v2 split: Exch.splits option.splits)
qed

text \<open>
  Claim C9, as amended.  Let the protocol of an endpoint not be TCP-based and let the first
  exchange return a response with TC=1 that passes validation.  Then the attempt makes
  exactly one more exchange, with the same address, over TCP and with a timeout of 5 seconds;
  its result is the TCP reply when that passes validation, and no response otherwise.  And
  when the endpoint is the starting endpoint of a first request that misses the cache, and
  the TCP reply passes validation and has TC=0, the message written to the client is the TCP
  reply with the ID and question of the query, and it has TC=0.
\<close>

theorem truncation_fallback_amended:
  assumes proto: "\<not> isTCPBasedProtocol (Protocol ns)"
      and addr: "address = JoinHostPort (Address ns) (showInt (Port ns))"
      and udp: "exchange env (length (netlog s)) (Exchange (client s) r address)
                  = ExchOk (Some udpResp)"
      and tc: "Truncated udpResp"
      and valid: "fst (validateResponse env s (Some r) (Some udpResp))"
  shows "netlog (snd (tryForwardToNameserver env s r ns d))
           = netlog s @ [Exchange (client s) r address,
                         Exchange \<lparr>Net = protocolTCP, Timeout = 5, ServerName = []\<rparr> r address]
       \<and> fst (tryForwardToNameserver env s r ns d)
           = (case exchange env (Suc (length (netlog s)))
                     (Exchange \<lparr>Net = protocolTCP, Timeout = 5, ServerName = []\<rparr> r address) of
                ExchOk (Some tcpResp) \<Rightarrow>
                  if fst (validateResponse env (snd (validateResponse env s (Some r) (Some udpResp)))
                            (Some r) (Some tcpResp))
                  then Some tcpResp else None
              | _ \<Rightarrow> None)
       \<and> (\<forall>s0 tcpResp key.
             fst (getCachedResponse env s0 r None) = None
           \<and> s = (snd (getCachedResponse env s0 r None))
                   \<lparr>nameserverIdx := nameserverIdx (snd (getCachedResponse env s0 r None)) + 1\<rparr>
           \<and> nameservers s0 \<noteq> []
           \<and> ns = nameservers s0 ! (startIndex s0 mod length (nameservers s0))
           \<and> exchange env (Suc (length (netlog s)))
                (Exchange \<lparr>Net = protocolTCP, Timeout = 5, ServerName = []\<rparr> r address)
                = ExchOk (Some tcpResp)
           \<and> fst (validateResponse env (snd (validateResponse env s (Some r) (Some udpResp)))
                     (Some r) (Some tcpResp))
           \<and> \<not> Truncated tcpResp
           \<longrightarrow> (\<exists>s' rest. handleFirstRequest env s0 r d key = Inr s'
                  \<and> out s' = out s0 @ WriteMsg (tcpResp\<lparr>Id := Id r, Question := Question r\<rparr>) # rest
                  \<and> \<not> Truncated (tcpResp\<lparr>Id := Id r, Question := Question r\<rparr>)))"
proof -
  have ep: "netlog (snd (tryForwardToNameserver env s r ns d))
           = netlog s @ [Exchange (client s) r address, Exchange tcpClient r address]
       \<and> fst (tryForwardToNameserver env s r ns d)
           = (case exchange env (Suc (length (netlog s))) (Exchange tcpClient r address) of
                ExchOk (Some tcpResp) \<Rightarrow>
                  if fst (validateResponse env (snd (validateResponse env s (Some r) (Some udpResp)))
                            (Some r) (Some tcpResp))
                  then Some tcpResp else None
              | _ \<Rightarrow> None)"
    using proto addr udp tc valid by (rule tryForwardToNameserver_truncated)
  have q: "Question r \<noteq> []" using valid by (rule validateResponse_question)
  have res: "\<exists>s' rest. handleFirstRequest env s0 r d key = Inr s'
                  \<and> out s' = out s0 @ WriteMsg (tcpResp\<lparr>Id := Id r, Question := Question r\<rparr>) # rest
                  \<and> \<not> Truncated (tcpResp\<lparr>Id := Id r, Question := Question r\<rparr>)"
    if miss: "fst (getCachedResponse env s0 r None) = None"
    and sdef: "s = (snd (getCachedResponse env s0 r None))
                   \<lparr>nameserverIdx := nameserverIdx (snd (getCachedResponse env s0 r None)) + 1\<rparr>"
    and ne: "nameservers s0 \<noteq> []"
    and nsdef: "ns = nameservers s0 ! (startIndex s0 mod length (nameservers s0))"
    and tcp: "exchange env (Suc (length (netlog s))) (Exchange tcpClient r address)
                = ExchOk (Some tcpResp)"
    and tv: "fst (validateResponse env (snd (validateResponse env s (Some r) (Some udpResp)))
                     (Some r) (Some tcpResp))"
    and nt: "\<not> Truncated tcpResp"
    for s0 tcpResp key
  proof -
    define sc where "sc = snd (getCachedResponse env s0 r None)"
    have nsc: "nameservers sc = nameservers s0" "nameserverIdx sc = nameserverIdx s0"
      by (simp_all add: sc_def)
    have st: "startIndex sc = startIndex s0" by (simp add: startIndex_def nsc)
    have ne': "nameservers sc \<noteq> []" using ne nsc by simp
    have hd: "rotate (startIndex sc) (nameservers sc)
                = ns # tl (rotate (startIndex sc) (nameservers sc))"
    proof -
      have "rotate (startIndex sc) (nameservers sc) \<noteq> []" using ne' by simp
      moreover have "hd (rotate (startIndex sc) (nameservers sc)) = ns"
        using ne' by (simp add: hd_rotate_conv_nth nsdef st nsc)
      ultimately show ?thesis by (metis list.collapse)
    qed
    have one: "fst (tryForwardToNameserver env s r ns d) = Some tcpResp"
      using ep tcp tv by simp
    have "forwardDirectInternal env sc r d
            = tryInOrder env s r d (rotate (startIndex sc) (nameservers sc))"
      using forwardDirectInternal_rotate[OF ne', of env r d] by (simp add: sdef sc_def)
    also have "\<dots> = tryInOrder env s r d (ns # tl (rotate (startIndex sc) (nameservers sc)))"
      using hd by simp
    finally have "fst (forwardDirectInternal env sc r d) = Some tcpResp"
      using one by (cases "tryForwardToNameserver env s r ns d") simp
    then have fwd: "fst (forwardDirectInternal env (snd (getCachedResponse env s0 r None)) r d)
                      = Some tcpResp"
      by (simp add: sc_def)
    from handleFirstRequest_answer[OF q miss fwd, of key] nt show ?thesis by auto
  qed
  show ?thesis
    using ep res unfolding tcpClient_def by blast
qed

theorem truncation_fallback_amended_witness:
  "\<not> isTCPBasedProtocol (Protocol udpNameserver)
   \<and> exchange truncatingEnv (length (netlog truncState))
         (Exchange (client truncState) exQuery ''192.0.2.1:53'') = ExchOk (Some truncatedReply)
   \<and> Truncated truncatedReply
   \<and> fst (validateResponse truncatingEnv truncState (Some exQuery) (Some truncatedReply))
   \<and> netlog (snd (tryForwardToNameserver truncatingEnv truncState exQuery udpNameserver ''example.com''))
       = [Exchange (client truncState) exQuery ''192.0.2.1:53'',
          Exchange \<lparr>Net = protocolTCP, Timeout = 5, ServerName = []\<rparr> exQuery ''192.0.2.1:53'']
   \<and> fst (tryForwardToNameserver truncatingEnv truncState exQuery udpNameserver ''example.com'')
       = Some posResponse
   \<and> (\<exists>s' rest. handleFirstRequest truncatingEnv exServer exQuery ''example.com'' ''example.com:1:1''
                    = Inr s'
          \<and> out s' = out exServer
                @ WriteMsg (posResponse\<lparr>Id := Id exQuery, Question := Question exQuery\<rparr>) # rest
          \<and> \<not> Truncated (posResponse\<lparr>Id := Id exQuery, Question := Question exQuery\<rparr>))"
proof -
  have proto: "\<not> isTCPBasedProtocol (Protocol udpNameserver)" by code_simp
  have addr: "''192.0.2.1:53'' = JoinHostPort (Address udpNameserver) (showInt (Port udpNameserver))"
    by code_simp
  have nl: "netlog truncState = []" by code_simp
  have udp: "exchange truncatingEnv (length (netlog truncState))
               (Exchange (client truncState) exQuery ''192.0.2.1:53'') = ExchOk (Some truncatedReply)"
    by code_simp
  have tc: "Truncated truncatedReply" by code_simp
  have valid: "fst (validateResponse truncatingEnv truncState (Some exQuery) (Some truncatedReply))"
    by code_simp
  have miss: "fst (getCachedResponse truncatingEnv exServer exQuery None) = None" by code_simp
  have ne: "nameservers exServer \<noteq> []" by code_simp
  have nsd: "udpNameserver = nameservers exServer ! (startIndex exServer mod length (nameservers exServer))"
    by code_simp
  have tcp: "exchange truncatingEnv (Suc (length (netlog truncState)))
               (Exchange \<lparr>Net = protocolTCP, Timeout = 5, ServerName = []\<rparr> exQuery ''192.0.2.1:53'')
               = ExchOk (Some posResponse)"
    by code_simp
  have tv: "fst (validateResponse truncatingEnv (snd (validateResponse truncatingEnv truncState (Some exQuery) (Some truncatedReply)))
                   (Some exQuery) (Some posResponse))"
    by code_simp
  have nt: "\<not> Truncated posResponse" by code_simp
  note inst = truncation_fallback_amended[OF proto addr udp tc valid, of "''example.com''"]
  from inst have c1: "netlog (snd (tryForwardToNameserver truncatingEnv truncState exQuery udpNameserver ''example.com''))
       = [Exchange (client truncState) exQuery ''192.0.2.1:53'',
          Exchange \<lparr>Net = protocolTCP, Timeout = 5, ServerName = []\<rparr> exQuery ''192.0.2.1:53'']"
    using nl by simp
  from inst have c2: "fst (tryForwardToNameserver truncatingEnv truncState exQuery udpNameserver ''example.com'')
       = Some posResponse"
    using tcp tv by simp
  from inst have "\<forall>s0 tcpResp key.
             fst (getCachedResponse truncatingEnv s0 exQuery None) = None
           \<and> truncState = (snd (getCachedResponse truncatingEnv s0 exQuery None))
                   \<lparr>nameserverIdx := nameserverIdx (snd (getCachedResponse truncatingEnv s0 exQuery None)) + 1\<rparr>
           \<and> nameservers s0 \<noteq> []
           \<and> udpNameserver = nameservers s0 ! (startIndex s0 mod length (nameservers s0))
           \<and> exchange truncatingEnv (Suc (length (netlog truncState)))
                (Exchange \<lparr>Net = protocolTCP, Timeout = 5, ServerName = []\<rparr> exQuery ''192.0.2.1:53'')
                = ExchOk (Some tcpResp)
           \<and> fst (validateResponse truncatingEnv (snd (validateResponse truncatingEnv truncState (Some exQuery) (Some truncatedReply)))
                     (Some exQuery) (Some tcpResp))
           \<and> \<not> Truncated tcpResp
           \<longrightarrow> (\<exists>s' rest. handleFirstRequest truncatingEnv s0 exQuery ''example.com'' key = Inr s'
                  \<and> out s' = out s0 @ WriteMsg (tcpResp\<lparr>Id := Id exQuery, Question := Question exQuery\<rparr>) # rest
                  \<and> \<not> Truncated (tcpResp\<lparr>Id := Id exQuery, Question := Question exQuery\<rparr>))"
    by blast
  then have c3: "\<exists>s' rest. handleFirstRequest truncatingEnv exServer exQuery ''example.com'' ''example.com:1:1''
                    = Inr s'
          \<and> out s' = out exServer
                @ WriteMsg (posResponse\<lparr>Id := Id exQuery, Question := Question exQuery\<rparr>) # rest
          \<and> \<not> Truncated (posResponse\<lparr>Id := Id exQuery, Question := Question exQuery\<rparr>)"
    using miss ne nsd tcp tv nt truncState_def by blast
  show ?thesis using proto udp tc valid c1 c2 c3 by blast
qed

text \<open>
  Claim C9 as stated fails for a truncated reply that does not pass validation.  A bare header
  with TC=1 and no question section is rejected before the TC bit is read: the attempt makes
  one exchange and returns no response, although the exchange over TCP would have returned a
  valid reply with TC=0.
\<close>

theorem truncation_fallback_counterexample:
  "\<not> isTCPBasedProtocol (Protocol udpNameserver)
   \<and> exchange headerOnlyEnv 0 (Exchange (client exServer) exQuery ''192.0.2.1:53'')
       = ExchOk (Some truncatedHeader)
   \<and> Truncated truncatedHeader
   \<and> exchange headerOnlyEnv 1
         (Exchange \<lparr>Net = protocolTCP, Timeout = 5, ServerName = []\<rparr> exQuery ''192.0.2.1:53'')
       = ExchOk (Some posResponse)
   \<and> fst (validateResponse headerOnlyEnv exServer (Some exQuery) (Some posResponse))
   \<and> \<not> Truncated posResponse
   \<and> fst (tryForwardToNameserver headerOnlyEnv exServer exQuery udpNameserver ''example.com'') = None
   \<and> netlog (snd (tryForwardToNameserver headerOnlyEnv exServer exQuery udpNameserver ''example.com''))
       = [Exchange (client exServer) exQuery ''192.0.2.1:53'']"
  by code_simp

lemma parentBlocked_iff:
  "parentBlocked b c d \<longleftrightarrow>
     (\<exists>pre parent e. d = pre @ CHR ''.'' # parent \<and> parent \<noteq> []
         \<and> b parent = Some e \<and> matchesBlockEntry e c)"
proof (induction d)
  case Nil
  then show ?case by simp
next
  case (Cons ch rest)
  have "(\<exists>pre parent e. ch # rest = pre @ CHR ''.'' # parent \<and> parent \<noteq> []
            \<and> b parent = Some e \<and> matchesBlockEntry e c)
        \<longleftrightarrow> (ch = CHR ''.'' \<and> rest \<noteq> [] \<and> (\<exists>e. b rest = Some e \<and> matchesBlockEntry e c))
          \<or> (\<exists>pre parent e. rest = pre @ CHR ''.'' # parent \<and> parent \<noteq> []
                \<and> b parent = Some e \<and> matchesBlockEntry e c)"
    (is "?L \<longleftrightarrow> ?A \<or> ?B")
  proof
    assume ?L
    then obtain pre parent e where
      p: "ch # rest = pre @ CHR ''.'' # parent" "parent \<noteq> []" "b parent = Some e"
         "matchesBlockEntry e c"
      by blast
    show "?A \<or> ?B"
    proof (cases pre)
      case Nil
      with p show ?thesis by auto
    next
      case (Cons x xs)
      with p have "rest = xs @ CHR ''.'' # parent" by simp
      with p show ?thesis by blast
    qed
  next
    assume "?A \<or> ?B"
    then show ?L
    proof
      assume ?A
      then obtain e where "ch # rest = [] @ CHR ''.'' # rest" "rest \<noteq> []" "b rest = Some e"
        "matchesBlockEntry e c" by auto
      then show ?L by blast
    next
      assume ?B
      then obtain pre parent e where
        "rest = pre @ CHR ''.'' # parent" "parent \<noteq> []" "b parent = Some e"
        "matchesBlockEntry e c" by blast
      then have "ch # rest = (ch # pre) @ CHR ''.'' # parent" by simp
      with \<open>parent \<noteq> []\<close> \<open>b parent = Some e\<close> \<open>matchesBlockEntry e c\<close> show ?L by blast
    qed
  qed
  with Cons.IH show ?case by (auto split: option.splits)
qed

lemma isBlocked_denied: "isBlocked s n c = denied (blocked s) n c"
  by (auto simp: isBlocked_def denied_def parentBlocked_iff split: option.splits)

lemma isBlocked_blocked: "blocked s = blocked t \<Longrightarrow> isBlocked s n c = isBlocked t n c"
  by (simp add: isBlocked_def)

lemma getOverwrite_overwrites:
  "overwrites s = overwrites t \<Longrightarrow> getOverwrite s n c = getOverwrite t n c"
  by (simp add: getOverwrite_def)

lemma getCachedResponse_Some:
  "fst (getCachedResponse env s r c) = Some m \<Longrightarrow>
   \<exists>k e. map_of (cache s) k = Some e
        \<and> m = (Message e)\<lparr>Id := Id r, Question := Question r,
                            RecursionDesired := RecursionDesired r,
                            CheckingDisabled := CheckingDisabled r\<rparr>"
  by (auto simp: getCachedResponse_def split_beta Let_def split: if_splits option.splits)

lemma SetReply_newMsg:
  "Question r = q # qs \<Longrightarrow>
   SetReply newMsg r =
     newMsg\<lparr>Id := Id r, Response := True, Opcode := Opcode r,
            RecursionDesired := (if Opcode r = OpcodeQuery then RecursionDesired r else False),
            CheckingDisabled := (if Opcode r = OpcodeQuery then CheckingDisabled r else False),
            Rcode := RcodeSuccess, Question := [q]\<rparr>"
  by (simp add: SetReply_def newMsg_def Let_def)

text \<open>
  Claim C1, as amended.  For every query with a question, the handler consults the cache
  before the policy.
  \<^item> When the lookup returns a message, the handler writes that message, which is a stored
    message with the ID, question, RD and CD of the query, whatever the deny list says.
  \<^item> When the lookup misses and the normalized name is denied to the client, the handler
    writes one NXDOMAIN reply with AA=1 and the ID and question of the query.
  \<^item> When the lookup misses, the name is not denied, an override matches and its address
    parses, the handler writes one NOERROR reply with AA=1 whose answer is the parsed record.

  In all three cases nothing is sent upstream and the cache is left as it was.
\<close>

theorem policy_after_cache_amended:
  assumes q: "Question r = q # qs"
  shows "(\<forall>m. fst (getCachedResponse env s r c) = Some m \<longrightarrow>
            (\<exists>s' k e. handleDNSRequest env s c r = Inr s' \<and> out s' = out s @ [WriteMsg m]
               \<and> map_of (cache s) k = Some e
               \<and> m = (Message e)\<lparr>Id := Id r, Question := Question r,
                                   RecursionDesired := RecursionDesired r,
                                   CheckingDisabled := CheckingDisabled r\<rparr>
               \<and> netlog s' = netlog s \<and> cache s' = cache s))
       \<and> (fst (getCachedResponse env s r c) = None
            \<and> denied (blocked s)
                 (fst (normalizeDomainS env (snd (getCachedResponse env s r c)) (Name q))) c \<longrightarrow>
            (\<exists>s' nx. handleDNSRequest env s c r = Inr s' \<and> out s' = out s @ [WriteMsg nx]
               \<and> Rcode nx = RcodeNameError \<and> Authoritative nx \<and> Response nx
               \<and> Id nx = Id r \<and> Question nx = [q] \<and> Answer nx = []
               \<and> netlog s' = netlog s \<and> cache s' = cache s))
       \<and> (\<forall>ip rr. fst (getCachedResponse env s r c) = None
            \<and> \<not> denied (blocked s)
                   (fst (normalizeDomainS env (snd (getCachedResponse env s r c)) (Name q))) c
            \<and> getOverwrite s
                 (fst (normalizeDomainS env (snd (getCachedResponse env s r c)) (Name q))) c = Some ip
            \<and> NewRR env (Name q @ '' 300 IN A '' @ ip) = Some rr \<longrightarrow>
            (\<exists>s' a. handleDNSRequest env s c r = Inr s' \<and> out s' = out s @ [WriteMsg a]
               \<and> Rcode a = RcodeSuccess \<and> Authoritative a \<and> Response a
               \<and> Id a = Id r \<and> Question a = [q] \<and> Answer a = [rr]
               \<and> netlog s' = netlog s \<and> cache s' = cache s))"
proof -
  define s1 where "s1 = snd (getCachedResponse env s r c)"
  define domain where "domain = fst (normalizeDomainS env s1 (Name q))"
  define s2 where "s2 = snd (normalizeDomainS env s1 (Name q))"
  have fr: "out s2 = out s" "netlog s2 = netlog s" "cache s2 = cache s"
           "out s1 = out s" "netlog s1 = netlog s" "cache s1 = cache s"
    by (simp_all add: s2_def s1_def)
  have bl: "isBlocked s2 domain c = denied (blocked s) domain c"
    using isBlocked_blocked[of s2 s domain c] by (simp add: isBlocked_denied s2_def s1_def)
  have ov: "getOverwrite s2 domain c = getOverwrite s domain c"
    by (rule getOverwrite_overwrites) (simp add: s2_def s1_def)
  have hit: "\<exists>s' k e. handleDNSRequest env s c r = Inr s' \<and> out s' = out s @ [WriteMsg m]
               \<and> map_of (cache s) k = Some e
               \<and> m = (Message e)\<lparr>Id := Id r, Question := Question r,
                                   RecursionDesired := RecursionDesired r,
                                   CheckingDisabled := CheckingDisabled r\<rparr>
               \<and> netlog s' = netlog s \<and> cache s' = cache s"
    if h: "fst (getCachedResponse env s r c) = Some m" for m
  proof -
    have "handleDNSRequest env s c r = Inr (WriteMsgTo s1 m)"
      using h by (simp add: handleDNSRequest_def split_beta s1_def)
    moreover have "out (WriteMsgTo s1 m) = out s @ [WriteMsg m]"
      "netlog (WriteMsgTo s1 m) = netlog s" "cache (WriteMsgTo s1 m) = cache s"
      by (simp_all add: WriteMsgTo_def fr)
    ultimately show ?thesis using getCachedResponse_Some[OF h] by auto
  qed
  have block: "\<exists>s' nx. handleDNSRequest env s c r = Inr s' \<and> out s' = out s @ [WriteMsg nx]
               \<and> Rcode nx = RcodeNameError \<and> Authoritative nx \<and> Response nx
               \<and> Id nx = Id r \<and> Question nx = [q] \<and> Answer nx = []
               \<and> netlog s' = netlog s \<and> cache s' = cache s"
    if miss: "fst (getCachedResponse env s r c) = None" and d: "denied (blocked s) domain c"
  proof -
    let ?nx = "SetRcode ((SetReply newMsg r)\<lparr>Authoritative := True\<rparr>) r RcodeNameError"
    have "handleDNSRequest env s c r = Inr (WriteMsgTo s2 ?nx)"
      using miss d bl q
      by (simp add: handleDNSRequest_def split_beta Let_def s1_def[symmetric]
               domain_def[symmetric] s2_def[symmetric])
    moreover have "out (WriteMsgTo s2 ?nx) = out s @ [WriteMsg ?nx]"
      "netlog (WriteMsgTo s2 ?nx) = netlog s" "cache (WriteMsgTo s2 ?nx) = cache s"
      by (simp_all add: WriteMsgTo_def fr)
    moreover have "Rcode ?nx = RcodeNameError \<and> Authoritative ?nx \<and> Response ?nx
               \<and> Id ?nx = Id r \<and> Question ?nx = [q] \<and> Answer ?nx = []"
      using q by (simp add: SetRcode_def SetReply_def Let_def newMsg_def)
    ultimately show ?thesis by blast
  qed
  have over: "\<exists>s' a. handleDNSRequest env s c r = Inr s' \<and> out s' = out s @ [WriteMsg a]
               \<and> Rcode a = RcodeSuccess \<and> Authoritative a \<and> Response a
               \<and> Id a = Id r \<and> Question a = [q] \<and> Answer a = [rr]
               \<and> netlog s' = netlog s \<and> cache s' = cache s"
    if miss: "fst (getCachedResponse env s r c) = None" and d: "\<not> denied (blocked s) domain c"
    and o: "getOverwrite s domain c = Some ip"
    and p: "NewRR env (Name q @ '' 300 IN A '' @ ip) = Some rr" for ip rr
  proof -
    let ?msg = "(SetReply newMsg r)\<lparr>Authoritative := True\<rparr>"
    let ?a = "?msg\<lparr>Answer := Answer ?msg @ [rr]\<rparr>"
    have "handleDNSRequest env s c r = Inr (WriteMsgTo s2 ?a)"
      using miss d bl q o ov p
      by (simp add: handleDNSRequest_def split_beta Let_def s1_def[symmetric]
               domain_def[symmetric] s2_def[symmetric])
    moreover have "out (WriteMsgTo s2 ?a) = out s @ [WriteMsg ?a]"
      "netlog (WriteMsgTo s2 ?a) = netlog s" "cache (WriteMsgTo s2 ?a) = cache s"
      by (simp_all add: WriteMsgTo_def fr)
    moreover have "Rcode ?a = RcodeSuccess \<and> Authoritative ?a \<and> Response ?a
               \<and> Id ?a = Id r \<and> Question ?a = [q] \<and> Answer ?a = [rr]"
      using q by (simp add: SetReply_def Let_def newMsg_def)
    ultimately show ?thesis by blast
  qed
  show ?thesis
    using hit block over unfolding domain_def s1_def by blast
qed


theorem policy_after_cache_amended_witness:
  "Question (adsQuery 22 ''x.ads.example.'') = [\<lparr>Name = ''x.ads.example.'', Qtype = 1, Qclass = 1\<rparr>]
   \<and> fst (getCachedResponse healthyEnv blockServer (adsQuery 22 ''x.ads.example.'') (Some client10)) = None
   \<and> denied (blocked blockServer) ''x.ads.example'' (Some client10)
   \<and> (\<exists>s' nx. handleDNSRequest healthyEnv blockServer (Some client10) (adsQuery 22 ''x.ads.example.'')
                  = Inr s'
          \<and> out s' = out blockServer @ [WriteMsg nx]
          \<and> Rcode nx = RcodeNameError \<and> Authoritative nx \<and> Id nx = 22 \<and> Answer nx = []
          \<and> netlog s' = netlog blockServer \<and> cache s' = cache blockServer)"
proof -
  have q: "Question (adsQuery 22 ''x.ads.example.'')
             = \<lparr>Name = ''x.ads.example.'', Qtype = 1, Qclass = 1\<rparr> # []"
    by code_simp
  have miss: "fst (getCachedResponse healthyEnv blockServer (adsQuery 22 ''x.ads.example.'')
                     (Some client10)) = None"
    by code_simp
  have n: "fst (normalizeDomainS healthyEnv
                  (snd (getCachedResponse healthyEnv blockServer (adsQuery 22 ''x.ads.example.'')
                          (Some client10)))
                  (Name \<lparr>Name = ''x.ads.example.'', Qtype = 1, Qclass = 1\<rparr>)) = ''x.ads.example''"
    by code_simp
  have "isBlocked blockServer ''x.ads.example'' (Some client10)" by code_simp
  then have d: "denied (blocked blockServer) ''x.ads.example'' (Some client10)"
    by (simp add: isBlocked_denied)
  have i: "Id (adsQuery 22 ''x.ads.example.'') = 22" by code_simp
  from policy_after_cache_amended[OF q, of healthyEnv blockServer "Some client10"] miss n d
  have "\<exists>s' nx. handleDNSRequest healthyEnv blockServer (Some client10) (adsQuery 22 ''x.ads.example.'')
                  = Inr s'
          \<and> out s' = out blockServer @ [WriteMsg nx]
          \<and> Rcode nx = RcodeNameError \<and> Authoritative nx \<and> Response nx
          \<and> Id nx = Id (adsQuery 22 ''x.ads.example.'')
          \<and> Question nx = [\<lparr>Name = ''x.ads.example.'', Qtype = 1, Qclass = 1\<rparr>] \<and> Answer nx = []
          \<and> netlog s' = netlog blockServer \<and> cache s' = cache blockServer"
    by simp
  with q miss d i show ?thesis by auto
qed

text \<open>
  Claim C1 as stated fails.  The name \<^verbatim>\<open>ads.example\<close> is denied to the clients of
  \<^verbatim>\<open>10.0.0.0/8\<close>, among them \<open>client10\<close>, and not to \<open>clientLan\<close>.  After
  \<open>clientLan\<close> has asked for it and the upstream answer has been cached, the request of
  \<open>client10\<close> is answered from the cache, with the cached address and NOERROR, and nothing
  is sent upstream.
\<close>

theorem policy_after_cache_counterexample:
  "isBlocked blockServer ''ads.example'' (Some client10)
   \<and> \<not> isBlocked blockServer ''ads.example'' (Some clientLan)
   \<and> (case handleDNSRequest healthyEnv blockServer (Some clientLan) (adsQuery 21 ''ads.example.'') of
         Inl e \<Rightarrow> False
       | Inr s1 \<Rightarrow>
           out s1 = [WriteMsg (answerFor (adsQuery 21 ''ads.example.''))]
           \<and> length (netlog s1) = 1
           \<and> isBlocked s1 ''ads.example'' (Some client10)
           \<and> (case handleDNSRequest healthyEnv s1 (Some client10) (adsQuery 22 ''ads.example.'') of
                 Inl e \<Rightarrow> False
               | Inr s2 \<Rightarrow>
                   out s2 = [WriteMsg (answerFor (adsQuery 21 ''ads.example.'')),
                             WriteMsg (answerFor (adsQuery 22 ''ads.example.''))]
                   \<and> Rcode (answerFor (adsQuery 22 ''ads.example.'')) = RcodeSuccess
                   \<and> Answer (answerFor (adsQuery 22 ''ads.example.''))
                       = [aRecord ''ads.example.'' 300 16909060]
                   \<and> length (netlog s2) = 1))"
  by code_simp


end
